theory Spec2Isabelle
  imports Complex_Main "HOL-Library.Sublist"
begin

section \<open>Values\<close>

text \<open>
  JavaScript values as far as the toolkit looks at them: the JSON values and
  \<open>undefined\<close>. An object is the list of its own enumerable properties in
  enumeration order, with distinct keys; reading a property is a lookup among
  these own properties (the members inherited from the built-in prototypes and
  the accessor key \<open>__proto__\<close> are outside this data model). A string is the
  list of its code units.
\<close>

datatype json =
    JUndefined
  | JNull
  | JBool bool
  | JNum rat
  | JStr string
  | JArr "json list"
  | JObj "(string \<times> json) list"

text \<open>\<open>a ?? b\<close>\<close>

definition nullish :: "json \<Rightarrow> bool" where
  "nullish v = (v = JUndefined \<or> v = JNull)"

definition coalesce :: "json \<Rightarrow> json \<Rightarrow> json" where
  "coalesce a b = (if nullish a then b else a)"

text \<open>Decimal rendering of a number that is a natural number or an integer.\<close>

definition digit_char :: "nat \<Rightarrow> char" where
  "digit_char d = ''0123456789'' ! d"

function show_nat :: "nat \<Rightarrow> string" where
  "show_nat n = (if n < 10 then [digit_char n] else show_nat (n div 10) @ [digit_char (n mod 10)])"
  by pat_completeness auto
termination
  by (relation "measure (\<lambda>n. n)") auto

declare show_nat.simps [simp del]


section \<open>Types of \<open>src/types/index.ts\<close>\<close>

datatype RiskLevel = LOW | MEDIUM | HIGH

definition risk_string :: "RiskLevel \<Rightarrow> string" where
  "risk_string r = (case r of LOW \<Rightarrow> ''LOW'' | MEDIUM \<Rightarrow> ''MEDIUM'' | HIGH \<Rightarrow> ''HIGH'')"

record ExoUser =
  uid :: string
  role :: string

record ExoContext =
  user :: "ExoUser option"
  scope :: "string list option"
  userId :: "string option"
  isAdmin :: "bool option"
  sessionId :: "string option"
  ctx_metadata :: "(string \<times> json) list option"

record ExecutionOptions =
  sudo :: "bool option"
  confirmed :: "bool option"

record 'o ExoExecutionResult =
  success :: bool
  data :: "'o option"
  error :: "string option"
  metadata :: "(string \<times> json) list option"

datatype 'd ValidationResult = Valid 'd | Invalid "string list"

section \<open>Effects\<close>

text \<open>
  User code (executor, hooks, interceptors) runs against a world \<open>'w\<close>: it may
  change the world, and it returns a value or throws. The two clocks the
  toolkit reads, \<open>performance.now()\<close> and \<open>Date.now()\<close>, are fields of the
  world. An \<open>async\<close> function awaited by its caller is such a computation;
  a rejected promise is a thrown value.
\<close>

record world =
  perf_clock :: rat
  wall_clock :: int

type_synonym ('e, 'r, 'w) comp = "'w \<Rightarrow> ('e + 'r) \<times> 'w"

definition ret :: "'r \<Rightarrow> ('e, 'r, 'w) comp" where
  "ret x = (\<lambda>w. (Inr x, w))"

definition raise :: "'e \<Rightarrow> ('e, 'r, 'w) comp" where
  "raise e = (\<lambda>w. (Inl e, w))"

definition bnd :: "('e, 'r, 'w) comp \<Rightarrow> ('r \<Rightarrow> ('e, 's, 'w) comp) \<Rightarrow> ('e, 's, 'w) comp" where
  "bnd m f = (\<lambda>w. case m w of (Inl e, w') \<Rightarrow> (Inl e, w') | (Inr x, w') \<Rightarrow> f x w')"

definition try_catch :: "('e, 'r, 'w) comp \<Rightarrow> ('e \<Rightarrow> ('f, 'r, 'w) comp) \<Rightarrow> ('f, 'r, 'w) comp" where
  "try_catch m h = (\<lambda>w. case m w of (Inl e, w') \<Rightarrow> h e w' | (Inr x, w') \<Rightarrow> (Inr x, w'))"

text \<open>
  A value thrown by user code: an instance of \<open>Error\<close> with its message, or
  any other value with what \<open>String\<close> makes of it.
\<close>

datatype js_thrown = JsError string | JsValue string

record FieldError =
  field :: string
  message :: string

text \<open>
  The error classes of \<open>src/errors/index.ts\<close>, each with the arguments its
  constructor is called with in \<open>ExoTool\<close>; \<open>Thrown\<close> is a value thrown by an
  interceptor.
\<close>

datatype 'd ExoError =
    ValidationError string "FieldError list" json
  | RiskViolationError string string "string option" 'd string RiskLevel
  | ConfirmationRequiredError string 'd string RiskLevel
  | ExecutionError string "js_thrown option" 'd rat string
  | Thrown js_thrown

record 'd HookStartPayload =
  start_toolName :: string
  start_args :: 'd
  start_context :: ExoContext

record 'o HookSuccessPayload =
  success_toolName :: string
  success_result :: 'o
  success_duration :: rat
  success_context :: ExoContext

record HookErrorPayload =
  error_toolName :: string
  error_error :: js_thrown
  error_duration :: rat
  error_context :: ExoContext

record ('d, 'o, 'w) ExoHooks =
  onStart :: "('d HookStartPayload \<Rightarrow> (js_thrown, unit, 'w) comp) option"
  onSuccess :: "('o HookSuccessPayload \<Rightarrow> (js_thrown, unit, 'w) comp) option"
  onError :: "(HookErrorPayload \<Rightarrow> (js_thrown, unit, 'w) comp) option"

record ('d, 'o, 'w) MiddlewareParams =
  toolName :: string
  args :: json
  context' :: ExoContext
  "next" :: "('d ExoError, 'o ExoExecutionResult, 'w) comp"

type_synonym ('d, 'o, 'w) ExoMiddleware =
  "('d, 'o, 'w) MiddlewareParams \<Rightarrow> ('d ExoError, 'o ExoExecutionResult, 'w) comp"

record ('d, 'o, 'w) ExoToolConfig =
  riskLevel :: RiskLevel
  requiresConfirmation :: bool
  timeout :: rat
  retryable :: bool
  maxRetries :: int
  tags :: "string list"
  hooks :: "('d, 'o, 'w) ExoHooks option"
  middleware :: "('d, 'o, 'w) ExoMiddleware list"

section \<open>The schema\<close>

text \<open>
  The Zod schema is an external capability. \<open>safeParse\<close> returns the parsed
  data or the issues, each with a path of keys and indices and a message;
  \<open>toJsonSchema\<close> is what \<open>zodToJsonSchema(schema, {name, $refStrategy: "none"})\<close>
  returns for the tool's name.
\<close>

datatype PathSegment = Key string | Index nat

record ZodIssue =
  path :: "PathSegment list"
  issue_message :: string

datatype 'd SafeParseReturn = ParseSuccess 'd | ParseError "ZodIssue list"

record 'd ZodSchema =
  safeParse :: "json \<Rightarrow> 'd SafeParseReturn"
  toJsonSchema :: "string \<Rightarrow> json"

record ('d, 'o, 'w) ExoTool =
  name :: string
  description :: string
  schema :: "'d ZodSchema"
  executor :: "'d \<Rightarrow> ExoContext \<Rightarrow> (js_thrown, 'o, 'w) comp"
  config :: "('d, 'o, 'w) ExoToolConfig"

section \<open>\<open>ExoTool.validate\<close>\<close>

definition segment_string :: "PathSegment \<Rightarrow> string" where
  "segment_string s = (case s of Key k \<Rightarrow> k | Index i \<Rightarrow> show_nat i)"

text \<open>\<open>Array.prototype.join(".")\<close>\<close>

fun join_dot :: "string list \<Rightarrow> string" where
  "join_dot [] = []"
| "join_dot [s] = s"
| "join_dot (s # t # ts) = s @ ''.'' @ join_dot (t # ts)"

definition issue_string :: "ZodIssue \<Rightarrow> string" where
  "issue_string issue =
     (let p = join_dot (map segment_string (path issue))
      in if p \<noteq> [] then p @ '': '' @ issue_message issue else issue_message issue)"

definition validate :: "('d, 'o, 'w) ExoTool \<Rightarrow> json \<Rightarrow> 'd ValidationResult" where
  "validate tool a =
     (case safeParse (schema tool) a of
        ParseSuccess d \<Rightarrow> Valid d
      | ParseError issues \<Rightarrow> Invalid (map issue_string issues))"

section \<open>\<open>ExoTool.execute\<close>\<close>

text \<open>\<open>String.prototype.indexOf\<close> for one character: \<open>-1\<close> when it is absent.\<close>

definition indexOf :: "string \<Rightarrow> char \<Rightarrow> int" where
  "indexOf s c = (if c \<in> set s then int (length (takeWhile (\<lambda>x. x \<noteq> c) s)) else - 1)"

definition fieldError :: "string \<Rightarrow> FieldError" where
  "fieldError errorMsg =
     (let colonIndex = indexOf errorMsg CHR '':''
      in if colonIndex > 0
         then \<lparr>field = take (nat colonIndex) errorMsg,
               message = drop (nat (colonIndex + 2)) errorMsg\<rparr>
         else \<lparr>field = ''_root'', message = errorMsg\<rparr>)"

definition hook_of ::
  "(('d, 'o, 'w) ExoHooks \<Rightarrow> 'h option) \<Rightarrow> ('d, 'o, 'w) ExoTool \<Rightarrow> 'h option" where
  "hook_of sel tool = (case hooks (config tool) of None \<Rightarrow> None | Some hs \<Rightarrow> sel hs)"

definition safeFireHook ::
  "('d, 'o, 'w) ExoTool \<Rightarrow> (('d, 'o, 'w) ExoHooks \<Rightarrow> ('p \<Rightarrow> (js_thrown, unit, 'w) comp) option)
     \<Rightarrow> 'p \<Rightarrow> ('e, unit, 'w) comp" where
  "safeFireHook tool hookName payload =
     (case hook_of hookName tool of
        None \<Rightarrow> ret ()
      | Some hook \<Rightarrow> try_catch (hook payload) (\<lambda>_. ret ()))"

definition thrown_message :: "js_thrown \<Rightarrow> string" where
  "thrown_message e = (case e of JsError m \<Rightarrow> m | JsValue _ \<Rightarrow> ''Unknown error occurred'')"

definition thrown_cause :: "js_thrown \<Rightarrow> js_thrown option" where
  "thrown_cause e = (case e of JsError m \<Rightarrow> Some (JsError m) | JsValue _ \<Rightarrow> None)"

definition as_Error :: "js_thrown \<Rightarrow> js_thrown" where
  "as_Error e = (case e of JsError m \<Rightarrow> JsError m | JsValue s \<Rightarrow> JsError s)"

definition executeCore ::
  "('d, 'o, 'w world_scheme) ExoTool \<Rightarrow> json \<Rightarrow> ExoContext \<Rightarrow> ExecutionOptions
     \<Rightarrow> ('d ExoError, 'o ExoExecutionResult, 'w world_scheme) comp" where
  "executeCore tool a ctx options = (\<lambda>w0.
     let startTime = perf_clock w0 in
     (case validate tool a of
        Invalid errors \<Rightarrow>
          raise (ValidationError (''Validation failed for tool \"'' @ name tool @ ''\"'')
                   (map fieldError errors) a)
      | Valid d \<Rightarrow>
          let userRole = map_option role (user ctx);
              admin = (userRole = Some ''admin'' \<or> isAdmin ctx = Some True);
              hasSudo = (sudo options = Some True)
          in if riskLevel (config tool) = HIGH \<and> \<not> admin \<and> \<not> hasSudo
             then raise (RiskViolationError (name tool) ''admin'' userRole d (name tool)
                           (riskLevel (config tool)))
             else if requiresConfirmation (config tool) \<and> confirmed options \<noteq> Some True
             then raise (ConfirmationRequiredError (name tool) d (name tool)
                           (riskLevel (config tool)))
             else
               bnd (safeFireHook tool onStart
                      \<lparr>start_toolName = name tool, start_args = d, start_context = ctx\<rparr>)
                 (\<lambda>_. try_catch
                    (bnd (executor tool d ctx) (\<lambda>out w.
                       let duration = perf_clock w - startTime in
                       bnd (safeFireHook tool onSuccess
                              \<lparr>success_toolName = name tool, success_result = out,
                               success_duration = duration, success_context = ctx\<rparr>)
                         (\<lambda>_. ret \<lparr>success = True, data = Some out, error = None,
                                    metadata = Some [(''executionTime'', JNum duration),
                                                     (''toolName'', JStr (name tool)),
                                                     (''riskLevel'',
                                                      JStr (risk_string (riskLevel (config tool))))]\<rparr>)
                         w))
                    (\<lambda>err w.
                       let duration = perf_clock w - startTime in
                       bnd (safeFireHook tool onError
                              \<lparr>error_toolName = name tool, error_error = as_Error err,
                               error_duration = duration, error_context = ctx\<rparr>)
                         (\<lambda>_. raise (ExecutionError
                                       (''Execution failed for tool \"'' @ name tool @ ''\": ''
                                          @ thrown_message err)
                                       (thrown_cause err) d duration (name tool)))
                         w))) w0)"

text \<open>
  The optional parameters of a \<open>PipelineFn\<close>: the arguments, where
  \<open>undefined\<close> is a value of \<open>json\<close>, and the context, where \<open>None\<close> is
  \<open>undefined\<close>.
\<close>

type_synonym ('d, 'o, 'w) PipelineFn =
  "json \<Rightarrow> ExoContext option \<Rightarrow> ('d ExoError, 'o ExoExecutionResult, 'w) comp"

definition coalesce_context :: "ExoContext option \<Rightarrow> ExoContext \<Rightarrow> ExoContext" where
  "coalesce_context a b = (case a of None \<Rightarrow> b | Some c \<Rightarrow> c)"

definition execute ::
  "('d, 'o, 'w world_scheme) ExoTool \<Rightarrow> json \<Rightarrow> ExoContext \<Rightarrow> ExecutionOptions
     \<Rightarrow> ('d ExoError, 'o ExoExecutionResult, 'w world_scheme) comp" where
  "execute tool a ctx options =
     (let startFn = (\<lambda>coreArgs coreContext.
            executeCore tool (coalesce coreArgs a) (coalesce_context coreContext ctx) options);
          pipeline = foldr
            (\<lambda>mw nxt. \<lambda>pipelineArgs pipelineContext.
               mw \<lparr>toolName = name tool,
                   args = coalesce pipelineArgs a,
                   context' = coalesce_context pipelineContext ctx,
                   next = nxt pipelineArgs pipelineContext\<rparr>)
            (middleware (config tool)) startFn
      in pipeline a (Some ctx))"

text \<open>
  The interceptor of the tests that logs, awaits \<open>next()\<close>, logs again and
  returns the result of \<open>next()\<close>: \<open>pre\<close> and \<open>post\<close> are its effects before and
  after.
\<close>

definition around ::
  "(string \<Rightarrow> json \<Rightarrow> ExoContext \<Rightarrow> 'w \<Rightarrow> 'w) \<Rightarrow> (string \<Rightarrow> json \<Rightarrow> ExoContext \<Rightarrow> 'w \<Rightarrow> 'w)
     \<Rightarrow> ('d, 'o, 'w) ExoMiddleware" where
  "around pre post p =
     bnd (\<lambda>w. (Inr (), pre (toolName p) (args p) (context' p) w))
       (\<lambda>_. bnd (next p)
          (\<lambda>result w. (Inr result, post (toolName p) (args p) (context' p) w)))"

text \<open>
  The interceptor of the tests that returns a result of its own and never
  calls \<open>next()\<close>.
\<close>

definition blocking ::
  "(string \<Rightarrow> json \<Rightarrow> ExoContext \<Rightarrow> ('d ExoError, 'o ExoExecutionResult, 'w) comp)
     \<Rightarrow> ('d, 'o, 'w) ExoMiddleware" where
  "blocking f p = f (toolName p) (args p) (context' p)"

text \<open>The chain that \<open>reduceRight\<close> builds, interceptor by interceptor.\<close>

primrec chain ::
  "('d, 'o, 'w world_scheme) ExoTool \<Rightarrow> json \<Rightarrow> ExoContext \<Rightarrow> ExecutionOptions
     \<Rightarrow> ('d, 'o, 'w world_scheme) ExoMiddleware list
     \<Rightarrow> ('d ExoError, 'o ExoExecutionResult, 'w world_scheme) comp" where
  "chain tool a ctx options [] = executeCore tool a ctx options"
| "chain tool a ctx options (mw # mws) =
     mw \<lparr>toolName = name tool, args = a, context' = ctx, next = chain tool a ctx options mws\<rparr>"



text \<open>What firing a hook leaves behind: the world as the hook left it.\<close>

definition hook_effect ::
  "('d, 'o, 'w) ExoTool \<Rightarrow> (('d, 'o, 'w) ExoHooks \<Rightarrow> ('p \<Rightarrow> (js_thrown, unit, 'w) comp) option)
     \<Rightarrow> 'p \<Rightarrow> 'w \<Rightarrow> 'w" where
  "hook_effect tool hookName payload w =
     (case hook_of hookName tool of None \<Rightarrow> w | Some hook \<Rightarrow> snd (hook payload w))"

section \<open>The rate limiter of \<open>src/middleware/index.ts\<close>\<close>

text \<open>
  Times are in milliseconds and, like the limit and the counts, integers. The \<open>Map\<close> that
  \<open>createRateLimiter\<close> allocates is the field \<open>storage\<close> of the world: the interceptor it
  returns reads and writes it, and so does the cleanup that the interval timer runs.
\<close>

record RateLimitEntry =
  count :: int
  resetTime :: int


record limited = world +
  storage :: "string \<rightharpoonup> RateLimitEntry"






text \<open>What the interval timer runs every \<open>windowMs\<close>.\<close>

definition cleanup :: "'w limited_scheme \<Rightarrow> 'w limited_scheme" where
  "cleanup w =
     w\<lparr>storage := (\<lambda>key. case storage w key of
                            None \<Rightarrow> None
                          | Some entry \<Rightarrow> if wall_clock w > resetTime entry then None else Some entry)\<rparr>"

text \<open>The regular expression \<open>/rate limit/i\<close>.\<close>

definition lower :: "char \<Rightarrow> char" where
  "lower c =
     (case map_of (zip ''ABCDEFGHIJKLMNOPQRSTUVWXYZ'' ''abcdefghijklmnopqrstuvwxyz'') c of
        None \<Rightarrow> c
      | Some l \<Rightarrow> l)"



section \<open>Specifications for the model providers\<close>

text \<open>Reading own properties, truthiness and \<open>typeof\<close>.\<close>

definition lookup :: "(string \<times> json) list \<Rightarrow> string \<Rightarrow> json" where
  "lookup kvs k = (case map_of kvs k of None \<Rightarrow> JUndefined | Some v \<Rightarrow> v)"

definition indexed :: "'a list \<Rightarrow> (string \<times> 'a) list" where
  "indexed xs = zip (map show_nat [0..<length xs]) xs"

text \<open>
  The own enumerable properties of a value, as the spread \<open>{...v}\<close>, \<open>Object.keys\<close> and
  \<open>Object.entries\<close> see them: those of an object; the indices of an array or of a string;
  none for the other values.
\<close>

definition entries :: "json \<Rightarrow> (string \<times> json) list" where
  "entries v =
     (case v of
        JObj kvs \<Rightarrow> kvs
      | JArr xs \<Rightarrow> indexed xs
      | JStr s \<Rightarrow> indexed (map (\<lambda>c. JStr [c]) s)
      | _ \<Rightarrow> [])"

text \<open>
  A \<open>TypeError\<close> is what JavaScript throws; \<open>Unmodelled\<close> marks the one conversion the
  model does not follow, of an own \<open>length\<close> property that is a string, an array or an
  object to a number.
\<close>

datatype SpecError = TypeError | Unmodelled

text \<open>\<open>v[k]\<close>: a \<open>TypeError\<close> on \<open>null\<close> and \<open>undefined\<close>.\<close>

definition get :: "json \<Rightarrow> string \<Rightarrow> SpecError + json" where
  "get v k =
     (case v of
        JUndefined \<Rightarrow> Inl TypeError
      | JNull \<Rightarrow> Inl TypeError
      | JArr xs \<Rightarrow> Inr (if k = ''length'' then JNum (of_nat (length xs)) else lookup (indexed xs) k)
      | JStr s \<Rightarrow> Inr (if k = ''length'' then JNum (of_nat (length s))
                         else lookup (indexed (map (\<lambda>c. JStr [c]) s)) k)
      | _ \<Rightarrow> Inr (lookup (entries v) k))"

definition truthy :: "json \<Rightarrow> bool" where
  "truthy v =
     (case v of
        JUndefined \<Rightarrow> False
      | JNull \<Rightarrow> False
      | JBool b \<Rightarrow> b
      | JNum n \<Rightarrow> n \<noteq> 0
      | JStr s \<Rightarrow> s \<noteq> []
      | _ \<Rightarrow> True)"

text \<open>\<open>typeof v === "object" && v !== null\<close>\<close>

definition is_object :: "json \<Rightarrow> bool" where
  "is_object v = (case v of JObj _ \<Rightarrow> True | JArr _ \<Rightarrow> True | _ \<Rightarrow> False)"

text \<open>\<open>o[k] = v\<close> on a plain object: in place when the key is there, at the end otherwise.\<close>

fun assign :: "(string \<times> json) list \<Rightarrow> string \<Rightarrow> json \<Rightarrow> (string \<times> json) list" where
  "assign [] k v = [(k, v)]"
| "assign ((k', v') # kvs) k v = (if k' = k then (k, v) # kvs else (k', v') # assign kvs k v)"

function applyStrictModeTransformations :: "json \<Rightarrow> json" where
  "applyStrictModeTransformations schema' =
     (let result = entries schema';
          result =
            (if lookup result ''type'' = JStr ''object''
             then let result = assign result ''additionalProperties'' (JBool False)
                  in if truthy (lookup result ''properties'') \<and> is_object (lookup result ''properties'')
                     then let propertyNames = map fst (entries (lookup result ''properties''));
                              result = assign result ''required'' (JArr (map JStr propertyNames));
                              transformedProperties =
                                map (\<lambda>(key, val).
                                       if is_object val
                                       then (key, applyStrictModeTransformations val)
                                       else (key, val))
                                  (entries (lookup result ''properties''))
                          in assign result ''properties'' (JObj transformedProperties)
                     else result
             else result)
      in if lookup result ''type'' = JStr ''array'' \<and> truthy (lookup result ''items'')
         then if is_object (lookup result ''items'')
              then JObj (assign result ''items''
                           (applyStrictModeTransformations (lookup result ''items'')))
              else JObj result
         else JObj result)"
  by pat_completeness auto
termination
proof (relation "measure size", goal_cases)
  have member: "size v < size x" if "(k, v) \<in> set (entries x)" and "is_object v" for k v x
  proof (cases x)
    case (JObj kvs)
    have "(k, v) \<in> set kvs" using that(1) by (simp add: JObj entries_def)
    then have "size_prod (\<lambda>_. 0) size (k, v) \<le> size_list (size_prod (\<lambda>_. 0) size) kvs"
      by (rule size_list_estimation') simp
    then show ?thesis by (simp add: JObj)
  next
    case (JArr xs)
    have "v \<in> set xs"
      using that(1) by (auto simp add: JArr entries_def indexed_def dest: set_zip_rightD)
    then have "size v \<le> size_list size xs"
      by (rule size_list_estimation') simp
    then show ?thesis by (simp add: JArr)
  next
    case (JStr s)
    then show ?thesis
      using that by (auto simp add: entries_def indexed_def is_object_def dest!: set_zip_rightD)
  qed (use that in \<open>simp_all add: entries_def\<close>)
  have looked: "size (lookup (entries x) k) < size x" if o: "is_object (lookup (entries x) k)" for x k
  proof -
    obtain v where "map_of (entries x) k = Some v"
      using o by (auto simp add: lookup_def is_object_def split: option.splits)
    then have "(k, v) \<in> set (entries x)" "lookup (entries x) k = v"
      by (auto simp add: lookup_def dest: map_of_SomeD)
    then show ?thesis using o member by metis
  qed
  have assigned: "lookup (assign kvs k v) k' = (if k' = k then v else lookup kvs k')" for kvs k v k'
    by (induction kvs) (auto simp add: lookup_def)
  {
    case 1
    show ?case by simp
  next
    case (2 s result result' propertyNames result'' kv key val)
    then show ?case
      using member [of key val "lookup (entries s) ''properties''"] looked [of s "''properties''"]
      by (simp add: assigned)
  next
    case (3 s result result')
    then show ?case
      using looked [of s "''items''"]
      by (auto simp add: assigned Let_def split: if_splits)
  }
qed

declare applyStrictModeTransformations.simps [simp del]

text \<open>
  What both \<open>getOpenAISpec\<close> and \<open>getAnthropicSpec\<close> begin with: the definition under
  the tool's name when the schema is wrapped, the schema itself otherwise.
\<close>

definition unwrapped :: "string \<Rightarrow> json \<Rightarrow> SpecError + json" where
  "unwrapped n jsonSchema =
     (case get jsonSchema ''definitions'' of
        Inl e \<Rightarrow> Inl e
      | Inr definitions \<Rightarrow>
          if truthy definitions \<and> is_object definitions
          then map_sum id (\<lambda>v. coalesce v (JObj [])) (get definitions n)
          else (case get jsonSchema ''$ref'' of
                  Inl e \<Rightarrow> Inl e
                | Inr r \<Rightarrow>
                    if truthy r
                    then map_sum id (\<lambda>v. coalesce v (JObj [])) (get definitions n)
                    else Inr (JObj (entries jsonSchema))))"

text \<open>\<open>const { $schema, ...rest } = v\<close>\<close>

definition without_schema :: "json \<Rightarrow> (string \<times> json) list" where
  "without_schema v = filter (\<lambda>(k, _). k \<noteq> ''$schema'') (entries v)"

record OpenAIFunction =
  fn_name :: string
  fn_description :: string
  parameters :: json
  strict :: "bool option"

record OpenAIToolSpec =
  spec_type :: string
  function' :: OpenAIFunction

record AnthropicInputSchema =
  schema_type :: string
  properties :: json
  required :: "json option"

record AnthropicToolSpec =
  spec_name :: string
  spec_description :: string
  input_schema :: AnthropicInputSchema

definition getJsonSchema :: "('d, 'o, 'w) ExoTool \<Rightarrow> json" where
  "getJsonSchema tool = toJsonSchema (schema tool) (name tool)"

definition getOpenAISpec :: "('d, 'o, 'w) ExoTool \<Rightarrow> bool \<Rightarrow> SpecError + OpenAIToolSpec" where
  "getOpenAISpec tool strict' =
     (case unwrapped (name tool) (getJsonSchema tool) of
        Inl e \<Rightarrow> Inl e
      | Inr parameters' \<Rightarrow>
          let cleanParameters = JObj (without_schema parameters');
              finalParameters =
                (if strict' then applyStrictModeTransformations cleanParameters
                 else cleanParameters)
          in Inr \<lparr>spec_type = ''function'',
                  function' = \<lparr>fn_name = name tool, fn_description = description tool,
                                parameters = finalParameters,
                                strict = (if strict' then Some True else None)\<rparr>\<rparr>)"

text \<open>\<open>v.length > 0\<close>\<close>

definition length_positive :: "json \<Rightarrow> SpecError + bool" where
  "length_positive v =
     (case v of
        JUndefined \<Rightarrow> Inl TypeError
      | JNull \<Rightarrow> Inl TypeError
      | JArr xs \<Rightarrow> Inr (xs \<noteq> [])
      | JStr s \<Rightarrow> Inr (s \<noteq> [])
      | JObj kvs \<Rightarrow>
          (case lookup kvs ''length'' of
             JUndefined \<Rightarrow> Inr False
           | JNull \<Rightarrow> Inr False
           | JBool b \<Rightarrow> Inr b
           | JNum n \<Rightarrow> Inr (n > 0)
           | _ \<Rightarrow> Inl Unmodelled)
      | _ \<Rightarrow> Inr False)"

definition getAnthropicSpec :: "('d, 'o, 'w) ExoTool \<Rightarrow> SpecError + AnthropicToolSpec" where
  "getAnthropicSpec tool =
     (case unwrapped (name tool) (getJsonSchema tool) of
        Inl e \<Rightarrow> Inl e
      | Inr schemaObject \<Rightarrow>
          let cleanSchema = without_schema schemaObject;
              requiredFields = lookup cleanSchema ''required'';
              inputSchema = \<lparr>schema_type = ''object'',
                             properties = coalesce (lookup cleanSchema ''properties'') (JObj []),
                             required = None\<rparr>
          in if requiredFields \<noteq> JUndefined
             then (case length_positive requiredFields of
                     Inl e \<Rightarrow> Inl e
                   | Inr positive \<Rightarrow>
                       Inr \<lparr>spec_name = name tool, spec_description = description tool,
                            input_schema =
                              (if positive then inputSchema\<lparr>required := Some requiredFields\<rparr>
                               else inputSchema)\<rparr>)
             else Inr \<lparr>spec_name = name tool, spec_description = description tool,
                       input_schema = inputSchema\<rparr>)"

text \<open>
  The schema nodes of a JSON schema that the strict mode is about: the schema itself, the
  property schemas of its object-typed nodes and the item schema of its array-typed nodes.
\<close>

definition object_typed :: "json \<Rightarrow> bool" where
  "object_typed n = (\<exists>kvs. n = JObj kvs \<and> lookup kvs ''type'' = JStr ''object'')"

definition array_typed :: "json \<Rightarrow> bool" where
  "array_typed n = (\<exists>kvs. n = JObj kvs \<and> lookup kvs ''type'' = JStr ''array'')"

inductive schema_node :: "json \<Rightarrow> json \<Rightarrow> bool" for s :: json where
  root: "schema_node s s"
| property: "schema_node s n \<Longrightarrow> object_typed n
               \<Longrightarrow> (k, v) \<in> set (entries (lookup (entries n) ''properties''))
               \<Longrightarrow> schema_node s v"
| item: "schema_node s n \<Longrightarrow> array_typed n \<Longrightarrow> schema_node s (lookup (entries n) ''items'')"

section \<open>Example tools\<close>

text \<open>
  A world that counts the invocations of user code, as \<open>jest.fn()\<close> does in
  the tests, and keeps a log, beside the state of a rate limiter.
\<close>

record counted = limited +
  calls :: nat
  log :: "string list"

definition counting_executor :: "json \<Rightarrow> ExoContext \<Rightarrow> (js_thrown, json, counted) comp" where
  "counting_executor d ctx = (\<lambda>w. (Inr d, w\<lparr>calls := calls w + 1\<rparr>))"

definition counting_hooks :: "(json, json, counted) ExoHooks" where
  "counting_hooks =
     \<lparr>onStart = Some (\<lambda>p w. (Inr (), w\<lparr>calls := calls w + 1\<rparr>)),
      onSuccess = Some (\<lambda>p w. (Inr (), w\<lparr>calls := calls w + 1\<rparr>)),
      onError = Some (\<lambda>p w. (Inr (), w\<lparr>calls := calls w + 1\<rparr>))\<rparr>"

text \<open>A schema that accepts objects and rejects everything else at the root.\<close>

definition object_schema :: "json ZodSchema" where
  "object_schema =
     \<lparr>safeParse = (\<lambda>a. case a of JObj kvs \<Rightarrow> ParseSuccess (JObj kvs)
                        | _ \<Rightarrow> ParseError [\<lparr>path = [], issue_message = ''Expected object''\<rparr>]),
      toJsonSchema = (\<lambda>n. JObj [(''$ref'', JStr (''#/definitions/'' @ n)),
                                 (''definitions'',
                                  JObj [(n, JObj [(''type'', JStr ''object''),
                                                  (''properties'', JObj [])])])])\<rparr>"

definition probe_tool ::
  "string \<Rightarrow> RiskLevel \<Rightarrow> bool \<Rightarrow> (json, json, counted) ExoMiddleware list
     \<Rightarrow> (json, json, counted) ExoTool" where
  "probe_tool n risk confirm mws =
     \<lparr>name = n, description = ''Counts its invocations.'', schema = object_schema,
      executor = counting_executor,
      config = \<lparr>riskLevel = risk, requiresConfirmation = confirm, timeout = 0, retryable = True,
                maxRetries = 3, tags = [], hooks = Some counting_hooks, middleware = mws\<rparr>\<rparr>"

definition guest :: ExoContext where
  "guest = \<lparr>user = Some \<lparr>uid = ''1'', role = ''guest''\<rparr>, scope = None, userId = None,
            isAdmin = None, sessionId = None, ctx_metadata = None\<rparr>"


definition no_options :: ExecutionOptions where
  "no_options = \<lparr>sudo = None, confirmed = None\<rparr>"

definition initial_world :: counted where
  "initial_world = \<lparr>perf_clock = 0, wall_clock = 0, storage = Map.empty, calls = 0, log = []\<rparr>"

definition log_line :: "string \<Rightarrow> string \<Rightarrow> json \<Rightarrow> ExoContext \<Rightarrow> counted \<Rightarrow> counted" where
  "log_line l n a ctx w = w\<lparr>log := log w @ [l]\<rparr>"

text \<open>The blocking interceptor of \<open>tests/middleware.test.ts\<close>.\<close>

definition blocker :: "(json, json, counted) ExoMiddleware" where
  "blocker = blocking (\<lambda>n a ctx. ret \<lparr>success = False, data = None, error = Some ''Blocked'',
                                        metadata = Some [(''blocked'', JBool True)]\<rparr>)"

text \<open>The logging interceptor of \<open>tests/middleware.test.ts\<close>.\<close>

definition logger :: "string \<Rightarrow> (json, json, counted) ExoMiddleware" where
  "logger l = around (log_line (l @ ''-start'')) (log_line (l @ ''-end''))"












text \<open>
  The schema \<open>z.object({}).strict()\<close>: an object with a key is rejected at the root, with
  the message Zod gives for unrecognized keys.
\<close>

definition quoted :: "string \<Rightarrow> string" where
  "quoted s = [CHR 0x27] @ s @ [CHR 0x27]"

fun join_comma :: "string list \<Rightarrow> string" where
  "join_comma [] = []"
| "join_comma [s] = s"
| "join_comma (s # t # ts) = s @ '', '' @ join_comma (t # ts)"

definition strict_schema :: "json ZodSchema" where
  "strict_schema =
     \<lparr>safeParse = (\<lambda>a. case a of
                          JObj [] \<Rightarrow> ParseSuccess (JObj [])
                        | JObj (kv # kvs) \<Rightarrow>
                            ParseError [\<lparr>path = [],
                                         issue_message = ''Unrecognized key(s) in object: ''
                                           @ join_comma (map (quoted \<circ> fst) (kv # kvs))\<rparr>]
                        | _ \<Rightarrow> ParseError [\<lparr>path = [], issue_message = ''Expected object''\<rparr>]),
      toJsonSchema = (\<lambda>n. JObj [(''$ref'', JStr (''#/definitions/'' @ n)),
                                 (''definitions'',
                                  JObj [(n, JObj [(''type'', JStr ''object''),
                                                  (''properties'', JObj []),
                                                  (''additionalProperties'', JBool False)])])])\<rparr>"

definition strict_tool :: "(json, json, counted) ExoTool" where
  "strict_tool = (probe_tool ''strict'' LOW False [])\<lparr>schema := strict_schema\<rparr>"

text \<open>Tools whose schema has a given JSON schema, wrapped as \<open>zodToJsonSchema\<close> wraps it.\<close>

definition schema_of :: "json \<Rightarrow> json ZodSchema" where
  "schema_of definition' =
     \<lparr>safeParse = (\<lambda>a. ParseSuccess a),
      toJsonSchema = (\<lambda>n. JObj [(''$ref'', JStr (''#/definitions/'' @ n)),
                                 (''definitions'', JObj [(n, definition')]),
                                 (''$schema'', JStr ''http://json-schema.org/draft-07/schema#'')])\<rparr>"

definition spec_tool :: "string \<Rightarrow> json \<Rightarrow> (json, json, counted) ExoTool" where
  "spec_tool n definition' = (probe_tool n LOW False [])\<lparr>schema := schema_of definition'\<rparr>"

definition nested_schema :: json where
  "nested_schema =
     JObj [(''type'', JStr ''object''),
           (''properties'',
            JObj [(''a'', JObj [(''type'', JStr ''string'')]),
                  (''b'', JObj [(''type'', JStr ''object''),
                                (''properties'', JObj [(''c'', JObj [(''type'', JStr ''number'')])])])])]"

definition record_schema :: json where
  "record_schema =
     JObj [(''type'', JStr ''object''),
           (''additionalProperties'', JObj [(''type'', JStr ''string'')])]"

definition weather_schema :: json where
  "weather_schema =
     JObj [(''type'', JStr ''object''),
           (''properties'', JObj [(''city'', JObj [(''type'', JStr ''string'')])]),
           (''required'', JArr [JStr ''city'']),
           (''additionalProperties'', JBool False)]"

definition nested_strict :: json where
  "nested_strict =
     JObj [(''type'', JStr ''object''),
           (''properties'',
            JObj [(''a'', JObj [(''type'', JStr ''string'')]),
                  (''b'', JObj [(''type'', JStr ''object''),
                                (''properties'', JObj [(''c'', JObj [(''type'', JStr ''number'')])]),
                                (''additionalProperties'', JBool False),
                                (''required'', JArr [JStr ''c''])])]),
           (''additionalProperties'', JBool False),
           (''required'', JArr [JStr ''a'', JStr ''b''])]"

section \<open>The specifications over a store of objects\<close>

text \<open>
  The same methods with the objects in a store, to follow which object each assignment
  writes to. A value is a primitive or a reference to an object of the store; an object is
  a plain object or an array; an allocation appends to the store. The cached JSON schema
  of a tool is the field \<open>cachedJsonSchema\<close>, a reference once it is set.
\<close>

datatype hval = HUndefined | HNull | HBool bool | HNum rat | HStr string | HRef nat

datatype hobj = Obj "(string \<times> hval) list" | Arr "hval list"

type_synonym store = "hobj list"

definition alloc :: "hobj \<Rightarrow> store \<Rightarrow> hval \<times> store" where
  "alloc ob h = (HRef (length h), h @ [ob])"

definition h_entries :: "store \<Rightarrow> hval \<Rightarrow> (string \<times> hval) list" where
  "h_entries h v =
     (case v of
        HRef a \<Rightarrow> (if a < length h
                    then (case h ! a of Obj kvs \<Rightarrow> kvs | Arr xs \<Rightarrow> indexed xs)
                    else [])
      | HStr s \<Rightarrow> indexed (map (\<lambda>c. HStr [c]) s)
      | _ \<Rightarrow> [])"

definition h_lookup :: "(string \<times> hval) list \<Rightarrow> string \<Rightarrow> hval" where
  "h_lookup kvs k = (case map_of kvs k of None \<Rightarrow> HUndefined | Some v \<Rightarrow> v)"

definition h_prop :: "store \<Rightarrow> hval \<Rightarrow> string \<Rightarrow> hval" where
  "h_prop h v k = h_lookup (h_entries h v) k"

definition h_get :: "store \<Rightarrow> hval \<Rightarrow> string \<Rightarrow> SpecError + hval" where
  "h_get h v k =
     (case v of
        HUndefined \<Rightarrow> Inl TypeError
      | HNull \<Rightarrow> Inl TypeError
      | HStr s \<Rightarrow> Inr (if k = ''length'' then HNum (of_nat (length s)) else h_prop h v k)
      | HRef a \<Rightarrow>
          (if a < length h
           then (case h ! a of
                   Obj kvs \<Rightarrow> Inr (h_lookup kvs k)
                 | Arr xs \<Rightarrow> Inr (if k = ''length'' then HNum (of_nat (length xs))
                                    else h_lookup (indexed xs) k))
           else Inr HUndefined)
      | _ \<Rightarrow> Inr HUndefined)"

definition h_truthy :: "hval \<Rightarrow> bool" where
  "h_truthy v =
     (case v of
        HUndefined \<Rightarrow> False
      | HNull \<Rightarrow> False
      | HBool b \<Rightarrow> b
      | HNum n \<Rightarrow> n \<noteq> 0
      | HStr s \<Rightarrow> s \<noteq> []
      | HRef _ \<Rightarrow> True)"

definition h_is_object :: "hval \<Rightarrow> bool" where
  "h_is_object v = (case v of HRef _ \<Rightarrow> True | _ \<Rightarrow> False)"

definition h_nullish :: "hval \<Rightarrow> bool" where
  "h_nullish v = (v = HUndefined \<or> v = HNull)"

fun h_assign :: "(string \<times> hval) list \<Rightarrow> string \<Rightarrow> hval \<Rightarrow> (string \<times> hval) list" where
  "h_assign [] k v = [(k, v)]"
| "h_assign ((k', v') # kvs) k v = (if k' = k then (k, v) # kvs else (k', v') # h_assign kvs k v)"

text \<open>\<open>r[k] = v\<close> where \<open>r\<close> refers to a plain object: the object at that address is replaced.\<close>

definition h_set :: "hval \<Rightarrow> string \<Rightarrow> hval \<Rightarrow> store \<Rightarrow> store" where
  "h_set r k v h =
     (case r of
        HRef a \<Rightarrow> (if a < length h
                    then (case h ! a of Obj kvs \<Rightarrow> h[a := Obj (h_assign kvs k v)] | Arr xs \<Rightarrow> h)
                    else h)
      | _ \<Rightarrow> h)"

text \<open>
  \<open>applyStrictModeTransformations\<close>: the copy of the schema, the statement for the object
  types with its loop over the entries of \<open>result.properties\<close>, and the statement for the
  array types. The recursion follows the references of the store, which may form a cycle:
  the fuel bounds its depth, and \<open>None\<close> is a recursion that has not returned within it.
  The two statements take the recursive calls they make as \<open>loop\<close> and \<open>recurse\<close>.
\<close>

definition strict_object_h ::
  "((string \<times> hval) list \<Rightarrow> hval \<Rightarrow> store \<Rightarrow> store option) \<Rightarrow> hval \<Rightarrow> store \<Rightarrow> store option" where
  "strict_object_h loop result h =
     (if h_prop h result ''type'' = HStr ''object''
      then let h = h_set result ''additionalProperties'' (HBool False) h
           in if h_truthy (h_prop h result ''properties'')
                   \<and> h_is_object (h_prop h result ''properties'')
              then let propertyNames = map fst (h_entries h (h_prop h result ''properties''));
                       (names, h) = alloc (Arr (map HStr propertyNames)) h;
                       h = h_set result ''required'' names h;
                       (transformedProperties, h) = alloc (Obj []) h
                   in (case loop (h_entries h (h_prop h result ''properties''))
                               transformedProperties h of
                         None \<Rightarrow> None
                       | Some h \<Rightarrow> Some (h_set result ''properties'' transformedProperties h))
              else Some h
      else Some h)"

definition strict_array_h ::
  "(hval \<Rightarrow> store \<Rightarrow> (hval \<times> store) option) \<Rightarrow> hval \<Rightarrow> store \<Rightarrow> (hval \<times> store) option" where
  "strict_array_h recurse result h =
     (if h_prop h result ''type'' = HStr ''array'' \<and> h_truthy (h_prop h result ''items'')
      then if h_is_object (h_prop h result ''items'')
           then (case recurse (h_prop h result ''items'') h of
                   None \<Rightarrow> None
                 | Some (items, h) \<Rightarrow> Some (result, h_set result ''items'' items h))
           else Some (result, h)
      else Some (result, h))"

fun applyStrictModeTransformations_h :: "nat \<Rightarrow> hval \<Rightarrow> store \<Rightarrow> (hval \<times> store) option"
  and transformProperties_h ::
    "nat \<Rightarrow> (string \<times> hval) list \<Rightarrow> hval \<Rightarrow> store \<Rightarrow> store option" where
  "applyStrictModeTransformations_h 0 schema' h = None"
| "applyStrictModeTransformations_h (Suc fuel) schema' h =
     (let (result, h) = alloc (Obj (h_entries h schema')) h
      in case strict_object_h (transformProperties_h fuel) result h of
           None \<Rightarrow> None
         | Some h \<Rightarrow> strict_array_h (applyStrictModeTransformations_h fuel) result h)"
| "transformProperties_h fuel [] transformedProperties h = Some h"
| "transformProperties_h fuel ((key, val) # rest) transformedProperties h =
     (if h_is_object val
      then (case applyStrictModeTransformations_h fuel val h of
              None \<Rightarrow> None
            | Some (val', h) \<Rightarrow>
                transformProperties_h fuel rest transformedProperties
                  (h_set transformedProperties key val' h))
      else transformProperties_h fuel rest transformedProperties
             (h_set transformedProperties key val h))"

text \<open>
  The object graph that \<open>zodToJsonSchema\<close> returns for a JSON value: fresh objects, the
  children allocated before their parent.
\<close>

fun build :: "json \<Rightarrow> store \<Rightarrow> hval \<times> store"
  and build_list :: "json list \<Rightarrow> store \<Rightarrow> hval list \<times> store"
  and build_fields :: "(string \<times> json) list \<Rightarrow> store \<Rightarrow> (string \<times> hval) list \<times> store" where
  "build JUndefined h = (HUndefined, h)"
| "build JNull h = (HNull, h)"
| "build (JBool b) h = (HBool b, h)"
| "build (JNum n) h = (HNum n, h)"
| "build (JStr s) h = (HStr s, h)"
| "build (JArr xs) h = (let (vs, h) = build_list xs h in alloc (Arr vs) h)"
| "build (JObj kvs) h = (let (fs, h) = build_fields kvs h in alloc (Obj fs) h)"
| "build_list [] h = ([], h)"
| "build_list (x # xs) h =
     (let (v, h) = build x h; (vs, h) = build_list xs h in (v # vs, h))"
| "build_fields [] h = ([], h)"
| "build_fields ((k, x) # kvs) h =
     (let (v, h) = build x h; (fs, h) = build_fields kvs h in ((k, v) # fs, h))"

record ToolObject =
  cachedJsonSchema :: "hval option"

definition getJsonSchema_h ::
  "('d, 'o, 'w) ExoTool \<Rightarrow> ToolObject \<times> store \<Rightarrow> hval \<times> ToolObject \<times> store" where
  "getJsonSchema_h tool st =
     (case cachedJsonSchema (fst st) of
        Some v \<Rightarrow> (v, st)
      | None \<Rightarrow>
          let (v, h) = build (toJsonSchema (schema tool) (name tool)) (snd st)
          in (v, (fst st)\<lparr>cachedJsonSchema := Some v\<rparr>, h))"

text \<open>\<open>v ?? {}\<close>, with the empty object allocated when it is needed.\<close>

definition h_or_empty :: "hval \<Rightarrow> store \<Rightarrow> hval \<times> store" where
  "h_or_empty v h = (if h_nullish v then alloc (Obj []) h else (v, h))"

definition unwrapped_h :: "string \<Rightarrow> hval \<Rightarrow> store \<Rightarrow> SpecError + hval \<times> store" where
  "unwrapped_h n jsonSchema h =
     (case h_get h jsonSchema ''definitions'' of
        Inl e \<Rightarrow> Inl e
      | Inr definitions \<Rightarrow>
          if h_truthy definitions \<and> h_is_object definitions
          then map_sum id (\<lambda>v. h_or_empty v h) (h_get h definitions n)
          else (case h_get h jsonSchema ''$ref'' of
                  Inl e \<Rightarrow> Inl e
                | Inr r \<Rightarrow>
                    if h_truthy r
                    then map_sum id (\<lambda>v. h_or_empty v h) (h_get h definitions n)
                    else Inr (alloc (Obj (h_entries h jsonSchema)) h)))"

text \<open>\<open>const { $schema, ...rest } = v\<close>: the rest is a new object.\<close>

definition without_schema_h :: "hval \<Rightarrow> store \<Rightarrow> hval \<times> store" where
  "without_schema_h v h = alloc (Obj (filter (\<lambda>(k, _). k \<noteq> ''$schema'') (h_entries h v))) h"

record OpenAIFunction_h =
  fn_name_h :: string
  fn_description_h :: string
  parameters_h :: hval
  strict_h :: "bool option"

record OpenAIToolSpec_h =
  spec_type_h :: string
  function_h :: OpenAIFunction_h

definition getOpenAISpec_h ::
  "nat \<Rightarrow> ('d, 'o, 'w) ExoTool \<Rightarrow> bool \<Rightarrow> ToolObject \<times> store
     \<Rightarrow> ((SpecError + OpenAIToolSpec_h) \<times> ToolObject \<times> store) option" where
  "getOpenAISpec_h fuel tool strict' st =
     (let (jsonSchema, this, h) = getJsonSchema_h tool st
      in case unwrapped_h (name tool) jsonSchema h of
           Inl e \<Rightarrow> Some (Inl e, this, h)
         | Inr (parameters', h) \<Rightarrow>
             let (cleanParameters, h) = without_schema_h parameters' h
             in (case (if strict' then applyStrictModeTransformations_h fuel cleanParameters h
                       else Some (cleanParameters, h)) of
                   None \<Rightarrow> None
                 | Some (finalParameters, h) \<Rightarrow>
                     Some (Inr \<lparr>spec_type_h = ''function'',
                                function_h = \<lparr>fn_name_h = name tool,
                                              fn_description_h = description tool,
                                              parameters_h = finalParameters,
                                              strict_h = (if strict' then Some True else None)\<rparr>\<rparr>,
                           this, h)))"

record AnthropicInputSchema_h =
  schema_type_h :: string
  properties_h :: hval
  required_h :: "hval option"

record AnthropicToolSpec_h =
  spec_name_h :: string
  spec_description_h :: string
  input_schema_h :: AnthropicInputSchema_h

definition h_length_positive :: "store \<Rightarrow> hval \<Rightarrow> SpecError + bool" where
  "h_length_positive h v =
     (case v of
        HUndefined \<Rightarrow> Inl TypeError
      | HNull \<Rightarrow> Inl TypeError
      | HStr s \<Rightarrow> Inr (s \<noteq> [])
      | HRef a \<Rightarrow>
          (if a < length h
           then (case h ! a of
                   Arr xs \<Rightarrow> Inr (xs \<noteq> [])
                 | Obj kvs \<Rightarrow>
                     (case h_lookup kvs ''length'' of
                        HUndefined \<Rightarrow> Inr False
                      | HNull \<Rightarrow> Inr False
                      | HBool b \<Rightarrow> Inr b
                      | HNum n \<Rightarrow> Inr (n > 0)
                      | _ \<Rightarrow> Inl Unmodelled))
           else Inr False)
      | _ \<Rightarrow> Inr False)"

definition getAnthropicSpec_h ::
  "('d, 'o, 'w) ExoTool \<Rightarrow> ToolObject \<times> store
     \<Rightarrow> (SpecError + AnthropicToolSpec_h) \<times> ToolObject \<times> store" where
  "getAnthropicSpec_h tool st =
     (let (jsonSchema, this, h) = getJsonSchema_h tool st
      in case unwrapped_h (name tool) jsonSchema h of
           Inl e \<Rightarrow> (Inl e, this, h)
         | Inr (schemaObject, h) \<Rightarrow>
             let (cleanSchema, h) = without_schema_h schemaObject h;
                 requiredFields = h_prop h cleanSchema ''required'';
                 (properties', h) = h_or_empty (h_prop h cleanSchema ''properties'') h;
                 inputSchema = \<lparr>schema_type_h = ''object'', properties_h = properties',
                                required_h = None\<rparr>
             in if requiredFields \<noteq> HUndefined
                then (case h_length_positive h requiredFields of
                        Inl e \<Rightarrow> (Inl e, this, h)
                      | Inr positive \<Rightarrow>
                          (Inr \<lparr>spec_name_h = name tool, spec_description_h = description tool,
                                input_schema_h =
                                  (if positive then inputSchema\<lparr>required_h := Some requiredFields\<rparr>
                                   else inputSchema)\<rparr>, this, h))
                else (Inr \<lparr>spec_name_h = name tool, spec_description_h = description tool,
                           input_schema_h = inputSchema\<rparr>, this, h))"

text \<open>A value of the store stands for a JSON value.\<close>

inductive repr :: "store \<Rightarrow> hval \<Rightarrow> json \<Rightarrow> bool" for h :: store where
  undefined: "repr h HUndefined JUndefined"
| null: "repr h HNull JNull"
| bool: "repr h (HBool b) (JBool b)"
| num: "repr h (HNum n) (JNum n)"
| str: "repr h (HStr s) (JStr s)"
| arr: "a < length h \<Longrightarrow> h ! a = Arr vs \<Longrightarrow> list_all2 (repr h) vs xs
          \<Longrightarrow> repr h (HRef a) (JArr xs)"
| obj: "a < length h \<Longrightarrow> h ! a = Obj fs
          \<Longrightarrow> list_all2 (\<lambda>f kv. fst f = fst kv \<and> repr h (snd f) (snd kv)) fs kvs
          \<Longrightarrow> repr h (HRef a) (JObj kvs)"

text \<open>Every object below \<open>n\<close> is in the later store what it was in the earlier one.\<close>

definition frame :: "nat \<Rightarrow> store \<Rightarrow> store \<Rightarrow> bool" where
  "frame n h h' = (length h \<le> length h' \<and> (\<forall>a<n. h' ! a = h ! a))"

text \<open>The cache of a tool is empty or refers to the JSON schema of the tool.\<close>

definition cache_ok :: "('d, 'o, 'w) ExoTool \<Rightarrow> ToolObject \<times> store \<Rightarrow> bool" where
  "cache_ok tool st =
     (case cachedJsonSchema (fst st) of
        None \<Rightarrow> True
      | Some v \<Rightarrow> repr (snd st) v (getJsonSchema tool))"

definition openai_repr :: "store \<Rightarrow> OpenAIToolSpec_h \<Rightarrow> OpenAIToolSpec \<Rightarrow> bool" where
  "openai_repr h sh s =
     (spec_type_h sh = spec_type s
      \<and> fn_name_h (function_h sh) = fn_name (function' s)
      \<and> fn_description_h (function_h sh) = fn_description (function' s)
      \<and> strict_h (function_h sh) = strict (function' s)
      \<and> repr h (parameters_h (function_h sh)) (parameters (function' s)))"

definition anthropic_repr :: "store \<Rightarrow> AnthropicToolSpec_h \<Rightarrow> AnthropicToolSpec \<Rightarrow> bool" where
  "anthropic_repr h sh s =
     (spec_name_h sh = spec_name s
      \<and> spec_description_h sh = spec_description s
      \<and> schema_type_h (input_schema_h sh) = schema_type (input_schema s)
      \<and> repr h (properties_h (input_schema_h sh)) (properties (input_schema s))
      \<and> rel_option (repr h) (required_h (input_schema_h sh)) (required (input_schema s)))"

text \<open>
  A tool object before its first specification, in an empty store, and the same after a
  first call of \<open>getJsonSchema\<close>, with the cache set.
\<close>

definition new_tool :: "ToolObject \<times> store" where
  "new_tool = (\<lparr>cachedJsonSchema = None\<rparr>, [])"

definition cached_tool :: "('d, 'o, 'w) ExoTool \<Rightarrow> ToolObject \<times> store" where
  "cached_tool tool = snd (getJsonSchema_h tool new_tool)"

section \<open>The pipeline\<close>

lemma coalesce_same [simp]: "coalesce a a = a"
  by (simp add: coalesce_def)

lemma coalesce_context_Some [simp]: "coalesce_context (Some c) d = c"
  by (simp add: coalesce_context_def)

lemma pipeline_chain:
  "foldr (\<lambda>mw nxt. \<lambda>pipelineArgs pipelineContext.
            mw \<lparr>toolName = name tool, args = coalesce pipelineArgs a,
                context' = coalesce_context pipelineContext ctx,
                next = nxt pipelineArgs pipelineContext\<rparr>)
     mws
     (\<lambda>coreArgs coreContext.
        executeCore tool (coalesce coreArgs a) (coalesce_context coreContext ctx) options)
     a (Some ctx)
   = chain tool a ctx options mws"
  by (induction mws) simp_all

lemma execute_chain:
  "execute tool a ctx options = chain tool a ctx options (middleware (config tool))"
  unfolding execute_def Let_def by (rule pipeline_chain)

lemma chain_Cons_around:
  "chain tool a ctx options (around pre post # mws) w =
     (case chain tool a ctx options mws (pre (name tool) a ctx w) of
        (Inl e, w') \<Rightarrow> (Inl e, w')
      | (Inr r, w') \<Rightarrow> (Inr r, post (name tool) a ctx w'))"
  by (simp add: around_def bnd_def split: prod.splits sum.splits)

lemma chain_around:
  "chain tool a ctx options (map (\<lambda>(pre, post). around pre post) layers) w =
     (case executeCore tool a ctx options
             (foldl (\<lambda>w' (pre, post). pre (name tool) a ctx w') w layers) of
        (Inl e, w') \<Rightarrow> (Inl e, w')
      | (Inr r, w') \<Rightarrow> (Inr r, foldr (\<lambda>(pre, post) w''. post (name tool) a ctx w'') layers w'))"
proof (induction layers arbitrary: w)
  case Nil
  show ?case by (simp split: prod.splits sum.splits)
next
  case (Cons l layers)
  obtain pre post where l: "l = (pre, post)" by (cases l)
  have "chain tool a ctx options (map (\<lambda>(pre, post). around pre post) (l # layers)) w =
        chain tool a ctx options
          (around pre post # map (\<lambda>(pre, post). around pre post) layers) w"
    by (simp add: l)
  also have "\<dots> =
     (case chain tool a ctx options (map (\<lambda>(pre, post). around pre post) layers)
             (pre (name tool) a ctx w) of
        (Inl e, w') \<Rightarrow> (Inl e, w')
      | (Inr r, w') \<Rightarrow> (Inr r, post (name tool) a ctx w'))"
    by (rule chain_Cons_around)
  finally show ?case
    by (simp add: Cons.IH l split: prod.splits sum.splits)
qed

section \<open>The gates of the core executor\<close>




lemma safeFireHook_eq:
  "safeFireHook tool hookName payload w = (Inr (), hook_effect tool hookName payload w)"
  by (simp add: safeFireHook_def hook_effect_def ret_def try_catch_def
      split: option.splits prod.splits sum.splits)

lemma bnd_safeFireHook:
  "bnd (safeFireHook tool hookName payload) f w = f () (hook_effect tool hookName payload w)"
  by (simp add: bnd_def safeFireHook_eq)

lemma executeCore_passed:
  assumes "validate tool a = Valid d"
    and "riskLevel (config tool) \<noteq> HIGH \<or> map_option role (user ctx) = Some ''admin''
           \<or> isAdmin ctx = Some True \<or> sudo options = Some True"
    and "\<not> requiresConfirmation (config tool) \<or> confirmed options = Some True"
  shows "executeCore tool a ctx options w =
     (case executor tool d ctx
             (hook_effect tool onStart
                \<lparr>start_toolName = name tool, start_args = d, start_context = ctx\<rparr> w) of
        (Inr out, w2) \<Rightarrow>
          (Inr \<lparr>success = True, data = Some out, error = None,
                metadata = Some [(''executionTime'', JNum (perf_clock w2 - perf_clock w)),
                                 (''toolName'', JStr (name tool)),
                                 (''riskLevel'', JStr (risk_string (riskLevel (config tool))))]\<rparr>,
           hook_effect tool onSuccess
             \<lparr>success_toolName = name tool, success_result = out,
              success_duration = perf_clock w2 - perf_clock w, success_context = ctx\<rparr> w2)
      | (Inl err, w2) \<Rightarrow>
          (Inl (ExecutionError
                  (''Execution failed for tool \"'' @ name tool @ ''\": '' @ thrown_message err)
                  (thrown_cause err) d (perf_clock w2 - perf_clock w) (name tool)),
           hook_effect tool onError
             \<lparr>error_toolName = name tool, error_error = as_Error err,
              error_duration = perf_clock w2 - perf_clock w, error_context = ctx\<rparr> w2))"
proof -
  have gates: "\<not> (riskLevel (config tool) = HIGH
                  \<and> \<not> (map_option role (user ctx) = Some ''admin'' \<or> isAdmin ctx = Some True)
                  \<and> sudo options \<noteq> Some True)"
    "\<not> (requiresConfirmation (config tool) \<and> confirmed options \<noteq> Some True)"
    using assms(2,3) by blast+
  show ?thesis
    unfolding executeCore_def Let_def
    by (simp only: assms(1) ValidationResult.case gates if_False bnd_safeFireHook)
       (simp add: try_catch_def bnd_def safeFireHook_eq ret_def raise_def
          split: prod.splits sum.splits)
qed


lemma execute_around:
  assumes "middleware (config tool) = map (\<lambda>(pre, post). around pre post) layers"
  shows "execute tool a ctx options w =
     (case executeCore tool a ctx options
             (foldl (\<lambda>w' (pre, post). pre (name tool) a ctx w') w layers) of
        (Inl e, w') \<Rightarrow> (Inl e, w')
      | (Inr r, w') \<Rightarrow> (Inr r, foldr (\<lambda>(pre, post) w''. post (name tool) a ctx w'') layers w'))"
  by (simp add: execute_chain assms chain_around)

section \<open>Claims\<close>





lemma chain_short_circuit:
  assumes "\<forall>n. mw \<lparr>toolName = name tool, args = a, context' = ctx, next = n\<rparr>
                (foldl (\<lambda>w' (pre, post). pre (name tool) a ctx w') w outer) = (Inr r, w2)"
  shows "chain tool a ctx options (map (\<lambda>(pre, post). around pre post) outer @ mw # inner) w =
           (Inr r, foldr (\<lambda>(pre, post) w''. post (name tool) a ctx w'') outer w2)"
  using assms
proof (induction outer arbitrary: w)
  case Nil
  then show ?case by simp
next
  case (Cons l outer)
  obtain pre post where l: "l = (pre, post)" by (cases l)
  have step: "chain tool a ctx options
                (map (\<lambda>(pre, post). around pre post) (l # outer) @ mw # inner) w =
     (case chain tool a ctx options (map (\<lambda>(pre, post). around pre post) outer @ mw # inner)
             (pre (name tool) a ctx w) of
        (Inl e, w') \<Rightarrow> (Inl e, w')
      | (Inr r, w') \<Rightarrow> (Inr r, post (name tool) a ctx w'))"
    using chain_Cons_around [of tool a ctx options pre post _ w] by (simp add: l)
  have "chain tool a ctx options (map (\<lambda>(pre, post). around pre post) outer @ mw # inner)
          (pre (name tool) a ctx w) =
        (Inr r, foldr (\<lambda>(pre, post) w''. post (name tool) a ctx w'') outer w2)"
    using Cons.prems by (intro Cons.IH) (simp add: l)
  then show ?case by (simp only: step) (simp add: l)
qed

lemma log_pre_phases:
  "foldl (\<lambda>w' (pre, post). pre n a ctx w') w
          (map (\<lambda>l. (log_line (l @ ''-start''), log_line (l @ ''-end''))) ls) =
   w\<lparr>log := log w @ map (\<lambda>l. l @ ''-start'') ls\<rparr>"
  by (induction ls arbitrary: w) (simp_all add: log_line_def)

lemma log_post_phases:
  "foldr (\<lambda>(pre, post) w''. post n a ctx w'')
          (map (\<lambda>l. (log_line (l @ ''-start''), log_line (l @ ''-end''))) ls) w =
   w\<lparr>log := log w @ rev (map (\<lambda>l. l @ ''-end'') ls)\<rparr>"
  by (induction ls) (simp_all add: log_line_def)

lemma logger_layers:
  "map logger ls =
   map (\<lambda>(pre, post). around pre post)
     (map (\<lambda>l. (log_line (l @ ''-start''), log_line (l @ ''-end''))) ls)"
  by (simp add: logger_def)

lemma chain_Cons_logger:
  "chain tool a ctx options (logger l # mws) w =
     (case chain tool a ctx options mws (log_line (l @ ''-start'') (name tool) a ctx w) of
        (Inl e, w') \<Rightarrow> (Inl e, w')
      | (Inr r, w') \<Rightarrow> (Inr r, log_line (l @ ''-end'') (name tool) a ctx w'))"
  unfolding logger_def by (rule chain_Cons_around)

lemma probe_core_low:
  "executeCore (probe_tool n LOW False mws) (JObj kvs) ctx options w =
     (Inr \<lparr>success = True, data = Some (JObj kvs), error = None,
           metadata = Some [(''executionTime'', JNum 0), (''toolName'', JStr n),
                            (''riskLevel'', JStr ''LOW'')]\<rparr>,
      w\<lparr>calls := calls w + 3\<rparr>)"
proof -
  have v: "validate (probe_tool n LOW False mws) (JObj kvs) = Valid (JObj kvs)"
    by (simp add: validate_def probe_tool_def object_schema_def)
  have g: "riskLevel (config (probe_tool n LOW False mws)) \<noteq> HIGH
           \<or> map_option role (user ctx) = Some ''admin''
           \<or> isAdmin ctx = Some True \<or> sudo options = Some True"
    "\<not> requiresConfirmation (config (probe_tool n LOW False mws))
           \<or> confirmed options = Some True"
    by (simp_all add: probe_tool_def)
  show ?thesis
    unfolding executeCore_passed [OF v g]
    by (simp add: probe_tool_def hook_effect_def hook_of_def counting_hooks_def
          counting_executor_def risk_string_def)
qed

text \<open>
  C3. When an interceptor returns a result whatever its \<open>next\<close> is, that is without
  calling \<open>next()\<close>, then \<open>execute\<close> returns exactly that result, for every executor, all
  hooks and all inner interceptors, none of which has run: the world is the one the
  interceptor left, after the post-phases of the outer interceptors that return the
  result of \<open>next()\<close>.
\<close>

theorem short_circuit:
  assumes "middleware (config tool) = map (\<lambda>(pre, post). around pre post) outer @ mw # inner"
    and "\<forall>n. mw \<lparr>toolName = name tool, args = a, context' = ctx, next = n\<rparr>
                (foldl (\<lambda>w' (pre, post). pre (name tool) a ctx w') w outer) = (Inr r, w2)"
  shows "execute tool a ctx options w =
           (Inr r, foldr (\<lambda>(pre, post) w''. post (name tool) a ctx w'') outer w2)"
  using chain_short_circuit [of mw tool a ctx w outer r w2 options inner] assms(2)
  by (simp add: execute_chain assms(1))



theorem short_circuit_witness:
  "execute (probe_tool ''blocked_tool'' LOW False [logger ''mw1'', blocker, logger ''mw2''])
     (JObj []) guest no_options initial_world
   = (Inr \<lparr>success = False, data = None, error = Some ''Blocked'',
           metadata = Some [(''blocked'', JBool True)]\<rparr>,
      initial_world\<lparr>log := [''mw1-start'', ''mw1-end'']\<rparr>)"
  using short_circuit [of "probe_tool ''blocked_tool'' LOW False
                             [logger ''mw1'', blocker, logger ''mw2'']"
      "[(log_line ''mw1-start'', log_line ''mw1-end'')]" blocker "[logger ''mw2'']"
      "JObj []" guest initial_world
      "\<lparr>success = False, data = None, error = Some ''Blocked'',
        metadata = Some [(''blocked'', JBool True)]\<rparr>"
      "initial_world\<lparr>log := [''mw1-start'']\<rparr>" no_options]
  by (simp add: probe_tool_def logger_def blocker_def blocking_def ret_def log_line_def
        initial_world_def)

text \<open>
  C4. \<open>execute\<close> runs the chain in which every interceptor receives the arguments and
  the context of the call and, as \<open>next\<close>, the rest of the chain over the same arguments
  and context, the core executor last. For interceptors that wrap \<open>next()\<close> the
  pre-phases run first to last, then the core executor, then, when it returned, the
  post-phases last to first; for logging interceptors \<open>ls\<close> and a successful call the log
  gains the start lines in order before the core runs and the end lines in reverse
  order after it.
\<close>

theorem onion_order:
  "execute tool a ctx options = chain tool a ctx options (middleware (config tool))
   \<and> (middleware (config tool) = map (\<lambda>(pre, post). around pre post) layers
      \<longrightarrow> execute tool a ctx options w =
           (case executeCore tool a ctx options
                   (foldl (\<lambda>w' (pre, post). pre (name tool) a ctx w') w layers) of
              (Inl e, w') \<Rightarrow> (Inl e, w')
            | (Inr r, w') \<Rightarrow>
                (Inr r, foldr (\<lambda>(pre, post) w''. post (name tool) a ctx w'') layers w')))
   \<and> (middleware (config logged) = map logger ls
        \<and> fst (execute logged a ctx options v) = Inr r
      \<longrightarrow> (\<exists>v'. executeCore logged a ctx options
                   (v\<lparr>log := log v @ map (\<lambda>l. l @ ''-start'') ls\<rparr>) = (Inr r, v')
              \<and> snd (execute logged a ctx options v) =
                  v'\<lparr>log := log v' @ rev (map (\<lambda>l. l @ ''-end'') ls)\<rparr>))"
proof (intro conjI impI)
  show "execute tool a ctx options = chain tool a ctx options (middleware (config tool))"
    by (rule execute_chain)
next
  assume "middleware (config tool) = map (\<lambda>(pre, post). around pre post) layers"
  then show "execute tool a ctx options w =
           (case executeCore tool a ctx options
                   (foldl (\<lambda>w' (pre, post). pre (name tool) a ctx w') w layers) of
              (Inl e, w') \<Rightarrow> (Inl e, w')
            | (Inr r, w') \<Rightarrow>
                (Inr r, foldr (\<lambda>(pre, post) w''. post (name tool) a ctx w'') layers w'))"
    by (rule execute_around)
next
  assume h: "middleware (config logged) = map logger ls
        \<and> fst (execute logged a ctx options v) = Inr r"
  have e: "execute logged a ctx options v =
       (case executeCore logged a ctx options
               (v\<lparr>log := log v @ map (\<lambda>l. l @ ''-start'') ls\<rparr>) of
          (Inl e, w') \<Rightarrow> (Inl e, w')
        | (Inr r, w') \<Rightarrow> (Inr r, w'\<lparr>log := log w' @ rev (map (\<lambda>l. l @ ''-end'') ls)\<rparr>))"
    using h execute_around [of logged
        "map (\<lambda>l. (log_line (l @ ''-start''), log_line (l @ ''-end''))) ls" a ctx options v]
    by (simp only: logger_layers log_pre_phases log_post_phases)
  obtain x v' where c: "executeCore logged a ctx options
                          (v\<lparr>log := log v @ map (\<lambda>l. l @ ''-start'') ls\<rparr>) = (x, v')"
    by (cases "executeCore logged a ctx options
                 (v\<lparr>log := log v @ map (\<lambda>l. l @ ''-start'') ls\<rparr>)")
  show "\<exists>v'. executeCore logged a ctx options
                   (v\<lparr>log := log v @ map (\<lambda>l. l @ ''-start'') ls\<rparr>) = (Inr r, v')
              \<and> snd (execute logged a ctx options v) =
                  v'\<lparr>log := log v' @ rev (map (\<lambda>l. l @ ''-end'') ls)\<rparr>"
    using h e c by (cases x) auto
qed

theorem onion_order_witness:
  "log (snd (execute (probe_tool ''ordered_tool'' LOW False [logger ''mw1'', logger ''mw2''])
               (JObj []) guest no_options initial_world))
   = [''mw1-start'', ''mw2-start'', ''mw2-end'', ''mw1-end'']"
proof -
  let ?t = "probe_tool ''ordered_tool'' LOW False [logger ''mw1'', logger ''mw2'']"
  let ?r = "\<lparr>success = True, data = Some (JObj []), error = None,
             metadata = Some [(''executionTime'', JNum 0), (''toolName'', JStr ''ordered_tool''),
                              (''riskLevel'', JStr ''LOW'')]\<rparr>"
  have m: "middleware (config ?t) = map logger [''mw1'', ''mw2'']"
    by (simp add: probe_tool_def)
  have core: "executeCore ?t (JObj []) guest no_options w = (Inr ?r, w\<lparr>calls := calls w + 3\<rparr>)"
    for w
    by (simp add: probe_core_low)
  have m': "middleware (config ?t) = [logger ''mw1'', logger ''mw2'']"
    by (simp add: probe_tool_def)
  have ex: "fst (execute ?t (JObj []) guest no_options initial_world) = Inr ?r"
    by (simp add: execute_chain m' chain_Cons_logger core del: chain.simps(2))
  from onion_order [of ?t "JObj []" guest no_options
      "[(log_line ''mw1-start'', log_line ''mw1-end''),
        (log_line ''mw2-start'', log_line ''mw2-end'')]" initial_world ?t
      "[''mw1'', ''mw2'']" initial_world ?r] m ex
  obtain v' where
    "executeCore ?t (JObj []) guest no_options
       (initial_world\<lparr>log := log initial_world @ map (\<lambda>l. l @ ''-start'') [''mw1'', ''mw2'']\<rparr>)
     = (Inr ?r, v')"
    and s: "snd (execute ?t (JObj []) guest no_options initial_world) =
         v'\<lparr>log := log v' @ rev (map (\<lambda>l. l @ ''-end'') [''mw1'', ''mw2''])\<rparr>"
    by blast
  then have "v' = initial_world\<lparr>log := [''mw1-start'', ''mw2-start''], calls := 3\<rparr>"
    by (simp add: core initial_world_def)
  with s show ?thesis
    by simp
qed

section \<open>Hooks\<close>










section \<open>The rate limiter\<close>





lemma cleanup_keeps_live:
  assumes "storage w key = Some entry" and "wall_clock w \<le> resetTime entry"
  shows "storage (cleanup w) key = Some entry"
  using assms by (simp add: cleanup_def)

lemma lower_R: "lower CHR ''R'' = CHR ''r''"
  by (simp add: lower_def)






section \<open>Field errors\<close>

lemma indexOf_append:
  assumes "c \<notin> set p"
  shows "indexOf (p @ c # s) c = int (length p)"
proof -
  have "takeWhile (\<lambda>x. x \<noteq> c) (p @ c # s) = p"
    using assms by (induction p) auto
  then show ?thesis by (simp add: indexOf_def)
qed

lemma indexOf_absent:
  assumes "c \<notin> set s"
  shows "indexOf s c = - 1"
  using assms by (simp add: indexOf_def)

text \<open>
  Where the round trip through the message string works: the joined path is not empty
  and has no colon; or there is no joined path and the message has no colon.
\<close>

lemma fieldError_of_issue:
  "join_dot (map segment_string (path issue)) \<noteq> []
     \<and> CHR '':'' \<notin> set (join_dot (map segment_string (path issue)))
   \<longrightarrow> fieldError (issue_string issue) =
         \<lparr>field = join_dot (map segment_string (path issue)), message = issue_message issue\<rparr>"
  "join_dot (map segment_string (path issue)) = [] \<and> CHR '':'' \<notin> set (issue_message issue)
   \<longrightarrow> fieldError (issue_string issue) = \<lparr>field = ''_root'', message = issue_message issue\<rparr>"
  by (auto simp add: fieldError_def issue_string_def Let_def indexOf_append indexOf_absent
        nat_add_distrib)

text \<open>
  C6. The field errors are recovered from the message strings by cutting at the first
  colon, so a root-level issue whose message has a colon is not tagged \<open>_root\<close>: for the
  strict empty object called with the key \<open>extra\<close>, the field is the text before the colon
  and the message is what follows it.
\<close>

theorem root_issue_with_colon:
  "execute strict_tool (JObj [(''extra'', JNum 1)]) guest no_options initial_world =
     (Inl (ValidationError ''Validation failed for tool \"strict\"''
             [\<lparr>field = ''Unrecognized key(s) in object'', message = quoted ''extra''\<rparr>]
             (JObj [(''extra'', JNum 1)])),
      initial_world)
   \<and> validate strict_tool (JObj [(''extra'', JNum 1)]) =
       Invalid [''Unrecognized key(s) in object: '' @ quoted ''extra'']"
  by (simp add: execute_chain strict_tool_def probe_tool_def executeCore_def validate_def
        strict_schema_def issue_string_def raise_def fieldError_def indexOf_def quoted_def)

section \<open>Specifications\<close>

lemma lookup_assign: "lookup (assign kvs k v) k' = (if k' = k then v else lookup kvs k')"
  by (induction kvs) (auto simp add: lookup_def)

lemma lookup_without_schema:
  "k \<noteq> ''$schema'' \<Longrightarrow> lookup (without_schema s) k = lookup (entries s) k"
proof -
  assume k: "k \<noteq> ''$schema''"
  have "map_of (filter (\<lambda>(k', _). k' \<noteq> ''$schema'') kvs) k = map_of kvs k" for kvs :: "(string \<times> json) list"
    using k by (induction kvs) auto
  then show ?thesis by (simp add: lookup_def without_schema_def)
qed

lemma unwrapped_wrapped:
  "unwrapped n (JObj [(''$ref'', r), (''definitions'', JObj [(n, d)]), (''$schema'', v)]) =
     Inr (coalesce d (JObj []))"
  by (simp add: unwrapped_def get_def lookup_def entries_def truthy_def is_object_def)

text \<open>
  C8. With the schema of the tool unwrapped: when it has no \<open>required\<close> key, or an empty
  \<open>required\<close> list, the \<open>input_schema\<close> has no \<open>required\<close> key; when its \<open>required\<close> is a
  non-empty list, the \<open>input_schema\<close> has that list as \<open>required\<close>.
\<close>

theorem anthropic_required:
  "unwrapped (name tool) (getJsonSchema tool) = Inr s
   \<longrightarrow> (lookup (entries s) ''required'' = JUndefined \<or> lookup (entries s) ''required'' = JArr []
        \<longrightarrow> getAnthropicSpec tool =
              Inr \<lparr>spec_name = name tool, spec_description = description tool,
                   input_schema =
                     \<lparr>schema_type = ''object'',
                      properties = coalesce (lookup (entries s) ''properties'') (JObj []),
                      required = None\<rparr>\<rparr>)
     \<and> (lookup (entries s) ''required'' = JArr (x # xs)
        \<longrightarrow> getAnthropicSpec tool =
              Inr \<lparr>spec_name = name tool, spec_description = description tool,
                   input_schema =
                     \<lparr>schema_type = ''object'',
                      properties = coalesce (lookup (entries s) ''properties'') (JObj []),
                      required = Some (JArr (x # xs))\<rparr>\<rparr>)"
  by (auto simp add: getAnthropicSpec_def Let_def lookup_without_schema length_positive_def)

theorem anthropic_required_witness:
  "getAnthropicSpec (spec_tool ''get_weather'' weather_schema) =
     Inr \<lparr>spec_name = ''get_weather'', spec_description = ''Counts its invocations.'',
          input_schema =
            \<lparr>schema_type = ''object'',
             properties = JObj [(''city'', JObj [(''type'', JStr ''string'')])],
             required = Some (JArr [JStr ''city''])\<rparr>\<rparr>
   \<and> getAnthropicSpec (spec_tool ''free_form'' record_schema) =
     Inr \<lparr>spec_name = ''free_form'', spec_description = ''Counts its invocations.'',
          input_schema = \<lparr>schema_type = ''object'', properties = JObj [], required = None\<rparr>\<rparr>"
proof -
  let ?w = "spec_tool ''get_weather'' weather_schema"
  let ?f = "spec_tool ''free_form'' record_schema"
  have u: "unwrapped (name (spec_tool n d)) (getJsonSchema (spec_tool n d)) = Inr (coalesce d (JObj []))"
    for n d
    by (simp add: spec_tool_def getJsonSchema_def schema_of_def probe_tool_def unwrapped_wrapped)
  have n: "name (spec_tool n d) = n" "description (spec_tool n d) = ''Counts its invocations.''"
    for n d
    by (simp_all add: spec_tool_def probe_tool_def)
  have w: "unwrapped (name ?w) (getJsonSchema ?w) = Inr weather_schema"
    "lookup (entries weather_schema) ''required'' = JArr [JStr ''city'']"
    "coalesce (lookup (entries weather_schema) ''properties'') (JObj []) =
       JObj [(''city'', JObj [(''type'', JStr ''string'')])]"
    by (simp_all add: u weather_schema_def coalesce_def nullish_def lookup_def entries_def)
  have f: "unwrapped (name ?f) (getJsonSchema ?f) = Inr record_schema"
    "lookup (entries record_schema) ''required'' = JUndefined"
    "coalesce (lookup (entries record_schema) ''properties'') (JObj []) = JObj []"
    by (simp_all add: u record_schema_def coalesce_def nullish_def lookup_def entries_def)
  have "getAnthropicSpec ?w =
     Inr \<lparr>spec_name = name ?w, spec_description = description ?w,
          input_schema =
            \<lparr>schema_type = ''object'',
             properties = coalesce (lookup (entries weather_schema) ''properties'') (JObj []),
             required = Some (JArr [JStr ''city''])\<rparr>\<rparr>"
    using anthropic_required [of ?w weather_schema "JStr ''city''" "[]"] w(1,2) by blast
  moreover have "getAnthropicSpec ?f =
     Inr \<lparr>spec_name = name ?f, spec_description = description ?f,
          input_schema =
            \<lparr>schema_type = ''object'',
             properties = coalesce (lookup (entries record_schema) ''properties'') (JObj []),
             required = None\<rparr>\<rparr>"
    using anthropic_required [of ?f record_schema "JStr ''city''" "[]"] f(1,2) by blast
  ultimately show ?thesis
    by (simp add: n w(3) f(3))
qed

lemma is_object_truthy: "is_object v \<Longrightarrow> truthy v"
  by (cases v) (simp_all add: is_object_def truthy_def)

lemma strict_object:
  assumes "lookup (entries x) ''type'' = JStr ''object''"
  shows "applyStrictModeTransformations x =
     JObj (if is_object (lookup (entries x) ''properties'')
           then assign
                  (assign (assign (entries x) ''additionalProperties'' (JBool False)) ''required''
                     (JArr (map JStr (map fst (entries (lookup (entries x) ''properties''))))))
                  ''properties''
                  (JObj (map (\<lambda>(key, val).
                                if is_object val then (key, applyStrictModeTransformations val)
                                else (key, val))
                           (entries (lookup (entries x) ''properties''))))
           else assign (entries x) ''additionalProperties'' (JBool False))"
  using assms
  by (subst applyStrictModeTransformations.simps)
     (auto simp add: Let_def lookup_assign is_object_truthy)

lemma strict_array:
  assumes "lookup (entries x) ''type'' = JStr ''array''"
  shows "applyStrictModeTransformations x =
     JObj (if is_object (lookup (entries x) ''items'')
           then assign (entries x) ''items''
                  (applyStrictModeTransformations (lookup (entries x) ''items''))
           else entries x)"
  using assms
  by (subst applyStrictModeTransformations.simps)
     (auto simp add: Let_def lookup_assign is_object_truthy)

lemma strict_other:
  assumes "lookup (entries x) ''type'' \<noteq> JStr ''object''"
    and "lookup (entries x) ''type'' \<noteq> JStr ''array''"
  shows "applyStrictModeTransformations x = JObj (entries x)"
  using assms
  by (subst applyStrictModeTransformations.simps) (simp add: Let_def)

lemma strict_type:
  "lookup (entries (applyStrictModeTransformations x)) ''type'' = lookup (entries x) ''type''"
proof -
  consider "lookup (entries x) ''type'' = JStr ''object''"
    | "lookup (entries x) ''type'' = JStr ''array''"
    | "lookup (entries x) ''type'' \<noteq> JStr ''object''" "lookup (entries x) ''type'' \<noteq> JStr ''array''"
    by blast
  then show ?thesis
  proof cases
    case 1
    then show ?thesis by (simp add: strict_object entries_def lookup_assign)
  next
    case 2
    then show ?thesis by (simp add: strict_array entries_def lookup_assign)
  next
    case 3
    then show ?thesis by (simp add: strict_other entries_def)
  qed
qed

lemma is_object_JObj: "is_object (JObj kvs)"
  by (simp add: is_object_def)

lemma entries_JObj: "entries (JObj kvs) = kvs"
  by (simp add: entries_def)

lemma transformed_keys:
  "map fst (map (\<lambda>(key, val). if p val then (key, f val) else (key, val)) kvs) = map fst kvs"
  by (induction kvs) auto

lemma entries_not_object:
  assumes "\<not> is_object p" and "(k, v) \<in> set (entries p)"
  shows "\<not> is_object v"
  using assms
  by (cases p) (auto simp add: entries_def is_object_def indexed_def dest!: set_zip_rightD)

lemma strict_node:
  assumes "object_typed (applyStrictModeTransformations x)"
  shows "lookup (entries (applyStrictModeTransformations x)) ''additionalProperties'' = JBool False
       \<and> (is_object (lookup (entries (applyStrictModeTransformations x)) ''properties'')
          \<longrightarrow> lookup (entries (applyStrictModeTransformations x)) ''required'' =
                JArr (map JStr (map fst (entries
                        (lookup (entries (applyStrictModeTransformations x)) ''properties'')))))"
proof -
  have "lookup (entries (applyStrictModeTransformations x)) ''type'' = JStr ''object''"
    using assms by (auto simp add: object_typed_def entries_def)
  then have t: "lookup (entries x) ''type'' = JStr ''object''"
    by (simp add: strict_type)
  show ?thesis
  proof (cases "is_object (lookup (entries x) ''properties'')")
    case True
    then show ?thesis
      by (auto simp add: strict_object [OF t] entries_JObj lookup_assign is_object_JObj)
  next
    case False
    then show ?thesis
      by (simp add: strict_object [OF t] entries_JObj lookup_assign)
  qed
qed

lemma strict_nodes:
  assumes "schema_node (applyStrictModeTransformations x0) n" and "is_object n"
  shows "\<exists>x. n = applyStrictModeTransformations x"
  using assms
proof (induction rule: schema_node.induct)
  case root
  show ?case by blast
next
  case (property m k v)
  have "is_object m"
    using property.hyps(2) by (auto simp add: object_typed_def is_object_def)
  then obtain x where m: "m = applyStrictModeTransformations x"
    using property.IH by blast
  have "lookup (entries m) ''type'' = JStr ''object''"
    using property.hyps(2) by (auto simp add: object_typed_def entries_def)
  then have t: "lookup (entries x) ''type'' = JStr ''object''"
    by (simp add: m strict_type)
  show ?case
  proof (cases "is_object (lookup (entries x) ''properties'')")
    case True
    then have "(k, v) \<in> set (map (\<lambda>(key, val).
                                if is_object val then (key, applyStrictModeTransformations val)
                                else (key, val))
                           (entries (lookup (entries x) ''properties'')))"
      using property.hyps(3)
      by (simp add: m strict_object [OF t] entries_JObj lookup_assign)
    then show ?thesis
      using property.prems by (auto split: if_splits)
  next
    case False
    then have "(k, v) \<in> set (entries (lookup (entries x) ''properties''))"
      using property.hyps(3)
      by (simp add: m strict_object [OF t] entries_JObj lookup_assign)
    then show ?thesis
      using entries_not_object [OF False] property.prems by blast
  qed
next
  case (item m)
  have "is_object m"
    using item.hyps(2) by (auto simp add: array_typed_def is_object_def)
  then obtain x where m: "m = applyStrictModeTransformations x"
    using item.IH by blast
  have "lookup (entries m) ''type'' = JStr ''array''"
    using item.hyps(2) by (auto simp add: array_typed_def entries_def)
  then have t: "lookup (entries x) ''type'' = JStr ''array''"
    by (simp add: m strict_type)
  show ?case
  proof (cases "is_object (lookup (entries x) ''items'')")
    case True
    then show ?thesis
      by (auto simp add: m strict_array [OF t] entries_JObj lookup_assign)
  next
    case False
    then show ?thesis
      using item.prems
      by (simp add: m strict_array [OF t] entries_JObj)
  qed
qed

lemma strict_nested: "applyStrictModeTransformations nested_schema = nested_strict"
  unfolding nested_schema_def nested_strict_def by code_simp

lemma strict_record:
  "applyStrictModeTransformations record_schema =
     JObj [(''type'', JStr ''object''), (''additionalProperties'', JBool False)]"
  unfolding record_schema_def by code_simp

lemma getOpenAISpec_wrapped:
  "getOpenAISpec (spec_tool n d) s =
     Inr \<lparr>spec_type = ''function'',
          function' = \<lparr>fn_name = n, fn_description = ''Counts its invocations.'',
                        parameters = (if s then applyStrictModeTransformations
                                                  (JObj (without_schema (coalesce d (JObj []))))
                                      else JObj (without_schema (coalesce d (JObj [])))),
                        strict = (if s then Some True else None)\<rparr>\<rparr>"
  by (simp add: getOpenAISpec_def spec_tool_def getJsonSchema_def schema_of_def probe_tool_def
        unwrapped_wrapped Let_def)

text \<open>
  C7. As stated the claim fails on an object-typed node without \<open>properties\<close>, such as the
  schema of \<open>z.record(z.string())\<close>: the strict parameters have \<open>additionalProperties: false\<close>
  and no \<open>required\<close> key.
\<close>

theorem record_node_counterexample:
  "getOpenAISpec (spec_tool ''free_form'' record_schema) True =
     Inr \<lparr>spec_type = ''function'',
          function' = \<lparr>fn_name = ''free_form'', fn_description = ''Counts its invocations.'',
                        parameters = JObj [(''type'', JStr ''object''),
                                           (''additionalProperties'', JBool False)],
                        strict = Some True\<rparr>\<rparr>
   \<and> object_typed (JObj [(''type'', JStr ''object''), (''additionalProperties'', JBool False)])
   \<and> lookup (entries (JObj [(''type'', JStr ''object''), (''additionalProperties'', JBool False)]))
         ''required'' = JUndefined"
proof -
  have "JObj (without_schema (coalesce record_schema (JObj []))) = record_schema"
    by (simp add: record_schema_def coalesce_def nullish_def without_schema_def entries_def)
  then show ?thesis
    by (simp add: getOpenAISpec_wrapped strict_record object_typed_def lookup_def entries_def)
qed

text \<open>
  C7, amended. In the parameters of the strict specification, every object-typed schema
  node, reached through the properties of object-typed nodes and the items of array-typed
  nodes, has \<open>additionalProperties: false\<close>, and when it has a \<open>properties\<close> object its
  \<open>required\<close> is the list of all its property names. For the schema of the example the
  parameters are the expected ones.
\<close>

theorem strict_mode:
  "getOpenAISpec tool True = Inr spec
   \<longrightarrow> strict (function' spec) = Some True
     \<and> (\<forall>n. schema_node (parameters (function' spec)) n \<and> object_typed n
          \<longrightarrow> lookup (entries n) ''additionalProperties'' = JBool False
            \<and> (is_object (lookup (entries n) ''properties'')
               \<longrightarrow> lookup (entries n) ''required'' =
                     JArr (map JStr (map fst (entries (lookup (entries n) ''properties''))))))
     \<and> (unwrapped (name tool) (getJsonSchema tool) = Inr nested_schema
        \<longrightarrow> parameters (function' spec) = nested_strict)"
proof (intro impI conjI allI)
  assume g: "getOpenAISpec tool True = Inr spec"
  then obtain p where p: "unwrapped (name tool) (getJsonSchema tool) = Inr p"
    and s: "spec = \<lparr>spec_type = ''function'',
                    function' = \<lparr>fn_name = name tool, fn_description = description tool,
                                  parameters = applyStrictModeTransformations
                                                 (JObj (without_schema p)),
                                  strict = Some True\<rparr>\<rparr>"
    by (auto simp add: getOpenAISpec_def Let_def split: sum.splits)
  show "strict (function' spec) = Some True"
    by (simp add: s)
  {
    fix n
    assume n: "schema_node (parameters (function' spec)) n \<and> object_typed n"
    then have "is_object n"
      by (auto simp add: object_typed_def is_object_JObj)
    then obtain x where x: "n = applyStrictModeTransformations x"
      using n strict_nodes [of "JObj (without_schema p)" n] by (auto simp add: s)
    have node: "lookup (entries n) ''additionalProperties'' = JBool False
       \<and> (is_object (lookup (entries n) ''properties'')
          \<longrightarrow> lookup (entries n) ''required'' =
                JArr (map JStr (map fst (entries (lookup (entries n) ''properties'')))))"
      using n strict_node [of x] by (simp add: x)
    show "lookup (entries n) ''additionalProperties'' = JBool False"
      using node by blast
    assume "is_object (lookup (entries n) ''properties'')"
    then show "lookup (entries n) ''required'' =
                 JArr (map JStr (map fst (entries (lookup (entries n) ''properties''))))"
      using node by blast
  }
  assume "unwrapped (name tool) (getJsonSchema tool) = Inr nested_schema"
  then have "p = nested_schema"
    using p by simp
  moreover have "JObj (without_schema nested_schema) = nested_schema"
    by (simp add: nested_schema_def without_schema_def entries_def)
  ultimately show "parameters (function' spec) = nested_strict"
    by (simp add: s strict_nested)
qed

theorem strict_mode_witness:
  "getOpenAISpec (spec_tool ''nested'' nested_schema) True =
     Inr \<lparr>spec_type = ''function'',
          function' = \<lparr>fn_name = ''nested'', fn_description = ''Counts its invocations.'',
                        parameters = nested_strict, strict = Some True\<rparr>\<rparr>
   \<and> lookup (entries nested_strict) ''additionalProperties'' = JBool False
   \<and> lookup (entries nested_strict) ''required'' = JArr [JStr ''a'', JStr ''b'']
   \<and> lookup (entries (lookup (entries (lookup (entries nested_strict) ''properties'')) ''b''))
        ''required'' = JArr [JStr ''c'']"
proof -
  let ?t = "spec_tool ''nested'' nested_schema"
  let ?s = "\<lparr>spec_type = ''function'',
             function' = \<lparr>fn_name = ''nested'', fn_description = ''Counts its invocations.'',
                           parameters = nested_strict, strict = Some True\<rparr>\<rparr>"
  let ?b = "lookup (entries (lookup (entries nested_strict) ''properties'')) ''b''"
  have c: "JObj (without_schema (coalesce nested_schema (JObj []))) = nested_schema"
    by (simp add: nested_schema_def coalesce_def nullish_def without_schema_def entries_def)
  have g: "getOpenAISpec ?t True = Inr ?s"
    by (simp add: getOpenAISpec_wrapped c strict_nested)
  have r: "schema_node (parameters (function' ?s)) nested_strict" "object_typed nested_strict"
    by (simp_all add: schema_node.root object_typed_def nested_strict_def lookup_def)
  have "(''b'', ?b) \<in> set (entries (lookup (entries nested_strict) ''properties''))"
    by (simp add: nested_strict_def lookup_def entries_def)
  then have b: "schema_node (parameters (function' ?s)) ?b"
    using schema_node.property [OF r] by simp
  have ob: "object_typed ?b"
    by (simp add: object_typed_def nested_strict_def lookup_def entries_def)
  have pb: "is_object (lookup (entries ?b) ''properties'')"
    "is_object (lookup (entries nested_strict) ''properties'')"
    by (simp_all add: nested_strict_def lookup_def entries_def is_object_def)
  note w = strict_mode [of ?t ?s]
  have "lookup (entries nested_strict) ''additionalProperties'' = JBool False"
    "lookup (entries nested_strict) ''required'' =
       JArr (map JStr (map fst (entries (lookup (entries nested_strict) ''properties''))))"
    "lookup (entries ?b) ''required'' =
       JArr (map JStr (map fst (entries (lookup (entries ?b) ''properties''))))"
    using w g r b ob pb by blast+
  then show ?thesis
    using g by (simp add: nested_strict_def lookup_def entries_def)
qed


section \<open>The store\<close>

lemma frame_refl: "frame n h h"
  by (simp add: frame_def)

lemma frame_trans: "frame n h h' \<Longrightarrow> frame n h' h'' \<Longrightarrow> frame n h h''"
  by (auto simp add: frame_def)

lemma frame_weaken: "frame n h h' \<Longrightarrow> m \<le> n \<Longrightarrow> frame m h h'"
  by (simp add: frame_def)

lemma frame_alloc: "alloc ob h = (r, h') \<Longrightarrow> n \<le> length h \<Longrightarrow> frame n h h'"
  by (auto simp add: alloc_def frame_def nth_append)

lemma frame_set: "n \<le> t \<Longrightarrow> frame n h (h_set (HRef t) k v h)"
  by (auto simp add: h_set_def frame_def split: hobj.splits)

lemma length_set: "length (h_set r k v h) = length h"
  by (simp add: h_set_def split: hval.splits hobj.splits)

lemma frame_length: "frame n h h' \<Longrightarrow> length h \<le> length h'"
  by (simp add: frame_def)

lemma frame_append: "n \<le> length h \<Longrightarrow> frame n h (h @ [ob])"
  by (auto simp add: frame_def nth_append)

lemma frame_step_set: "frame n h h' \<Longrightarrow> n \<le> t \<Longrightarrow> frame n h (h_set (HRef t) k v h')"
  by (auto simp add: h_set_def frame_def split: hobj.splits)

lemma frame_step_append: "frame n h h' \<Longrightarrow> n \<le> length h \<Longrightarrow> frame n h (h' @ [ob])"
  by (auto simp add: frame_def nth_append)

lemma frame_step: "frame n h h' \<Longrightarrow> frame (length h') h' h'' \<Longrightarrow> n \<le> length h \<Longrightarrow> frame n h h''"
  by (auto simp add: frame_def)

lemma loop_frame:
  assumes S: "\<forall>v h v' h'. applyStrictModeTransformations_h fuel v h = Some (v', h')
                \<longrightarrow> frame (length h) h h'"
  shows "transformProperties_h fuel es (HRef t) h = Some h' \<Longrightarrow> n \<le> t \<Longrightarrow> n \<le> length h
           \<Longrightarrow> frame n h h'"
proof (induction es arbitrary: h)
  case Nil
  then show ?case by (simp add: frame_refl)
next
  case (Cons e es)
  obtain key val where e: "e = (key, val)" by (cases e)
  show ?case
  proof (cases "h_is_object val")
    case True
    then obtain val' h1 where a: "applyStrictModeTransformations_h fuel val h = Some (val', h1)"
      and r: "transformProperties_h fuel es (HRef t) (h_set (HRef t) key val' h1) = Some h'"
      using Cons.prems(1) by (auto simp add: e split: option.splits)
    have f1: "frame (length h) h h1" using S a by blast
    then have f2: "frame n h (h_set (HRef t) key val' h1)"
      using Cons.prems(2,3) by (auto intro: frame_step_set frame_weaken)
    have "n \<le> length (h_set (HRef t) key val' h1)"
      using f1 Cons.prems(3) by (simp add: length_set frame_def)
    then have "frame n (h_set (HRef t) key val' h1) h'"
      using Cons.IH [OF r Cons.prems(2)] by simp
    then show ?thesis using f2 by (rule frame_trans [rotated])
  next
    case False
    then have r: "transformProperties_h fuel es (HRef t) (h_set (HRef t) key val h) = Some h'"
      using Cons.prems(1) by (simp add: e)
    have "frame n (h_set (HRef t) key val h) h'"
      using Cons.IH [OF r Cons.prems(2)] Cons.prems(3) by (simp add: length_set)
    moreover have "frame n h (h_set (HRef t) key val h)"
      using Cons.prems(2) by (rule frame_set)
    ultimately show ?thesis by (rule frame_trans [rotated])
  qed
qed

lemma strict_object_frame:
  assumes L: "\<forall>es t h h'. loop es (HRef t) h = Some h' \<and> n \<le> t \<and> n \<le> length h
                \<longrightarrow> frame n h h'"
    and run: "strict_object_h loop (HRef r) h = Some h'"
    and n: "n \<le> r" "n \<le> length h"
  shows "frame n h h'"
proof (cases "h_prop h (HRef r) ''type'' = HStr ''object''")
  case False
  then show ?thesis using run by (simp add: strict_object_h_def frame_refl)
next
  case object: True
  define h1 where "h1 = h_set (HRef r) ''additionalProperties'' (HBool False) h"
  have f1: "frame n h h1" "length h1 = length h"
    unfolding h1_def using n by (simp_all add: frame_set length_set)
  show ?thesis
  proof (cases "h_truthy (h_prop h1 (HRef r) ''properties'')
                  \<and> h_is_object (h_prop h1 (HRef r) ''properties'')")
    case False
    then have "h' = h1"
      using run object by (auto simp add: strict_object_h_def h1_def Let_def)
    then show ?thesis using f1 by simp
  next
    case True
    define h2 where
      "h2 = h1 @ [Arr (map HStr (map fst (h_entries h1 (h_prop h1 (HRef r) ''properties''))))]"
    define h3 where "h3 = h_set (HRef r) ''required'' (HRef (length h1)) h2"
    define h4 where "h4 = h3 @ [Obj []]"
    have "strict_object_h loop (HRef r) h =
            (case loop (h_entries h4 (h_prop h4 (HRef r) ''properties'')) (HRef (length h3)) h4 of
               None \<Rightarrow> None
             | Some h5 \<Rightarrow> Some (h_set (HRef r) ''properties'' (HRef (length h3)) h5))"
      using object True
      unfolding strict_object_h_def h4_def h3_def h2_def h1_def alloc_def Let_def
      by (simp only: prod.case if_True simp_thms)
    then obtain h5 where loop: "loop (h_entries h4 (h_prop h4 (HRef r) ''properties''))
                             (HRef (length h3)) h4 = Some h5"
      and h': "h' = h_set (HRef r) ''properties'' (HRef (length h3)) h5"
      using run by (auto split: option.splits)
    have l: "length h2 = Suc (length h)" "length h3 = Suc (length h)" "length h4 = Suc (Suc (length h))"
      by (simp_all add: h2_def h3_def h4_def f1 length_set)
    have "frame n h h2"
      unfolding h2_def using f1(1) n(2) by (rule frame_step_append)
    then have "frame n h h3"
      unfolding h3_def using n(1) by (rule frame_step_set)
    then have f4: "frame n h h4"
      unfolding h4_def using n(2) by (rule frame_step_append)
    have "n \<le> length h3 \<and> n \<le> length h4"
      using n l by simp
    then have "frame n h4 h5"
      using L loop by blast
    then have "frame n h h5"
      using f4 by (rule frame_trans [rotated])
    then show ?thesis
      unfolding h' using n(1) by (rule frame_step_set)
  qed
qed

lemma strict_array_frame:
  assumes S: "\<forall>v h v' h'. recurse v h = Some (v', h') \<longrightarrow> frame (length h) h h'"
    and run: "strict_array_h recurse (HRef r) h = Some (v', h')"
    and n: "n \<le> r" "n \<le> length h"
  shows "frame n h h' \<and> v' = HRef r"
proof (cases "h_prop h (HRef r) ''type'' = HStr ''array'' \<and> h_truthy (h_prop h (HRef r) ''items'')
                \<and> h_is_object (h_prop h (HRef r) ''items'')")
  case False
  then show ?thesis
    using run by (auto simp add: strict_array_h_def frame_refl split: if_splits)
next
  case True
  then obtain items h1 where rec: "recurse (h_prop h (HRef r) ''items'') h = Some (items, h1)"
    and h': "h' = h_set (HRef r) ''items'' items h1" "v' = HRef r"
    using run by (auto simp add: strict_array_h_def split: option.splits)
  have "frame (length h) h h1"
    using S rec by blast
  then have "frame n h h1"
    using n(2) by (rule frame_weaken)
  then show ?thesis
    unfolding h' using n(1) by (simp add: frame_step_set)
qed

lemma strict_frame:
  "applyStrictModeTransformations_h fuel v h = Some (v', h')
     \<Longrightarrow> frame (length h) h h' \<and> v' = HRef (length h) \<and> length h < length h'"
proof (induction fuel arbitrary: v h v' h')
  case 0
  then show ?case by simp
next
  case (Suc fuel)
  have S: "\<forall>v h v' h'. applyStrictModeTransformations_h fuel v h = Some (v', h')
             \<longrightarrow> frame (length h) h h'"
    using Suc.IH by blast
  have L: "\<forall>es t h0 h'. transformProperties_h fuel es (HRef t) h0 = Some h' \<and> length h \<le> t
             \<and> length h \<le> length h0 \<longrightarrow> frame (length h) h0 h'"
    using loop_frame [OF S] by blast
  let ?h1 = "h @ [Obj (h_entries h v)]"
  obtain h2 where ob: "strict_object_h (transformProperties_h fuel) (HRef (length h)) ?h1 = Some h2"
    and ar: "strict_array_h (applyStrictModeTransformations_h fuel) (HRef (length h)) h2
               = Some (v', h')"
    using Suc.prems by (auto simp add: alloc_def split: option.splits)
  have f1: "frame (length h) h ?h1"
    by (simp add: frame_append)
  have f2: "frame (length h) ?h1 h2"
    using L ob by (rule strict_object_frame) simp_all
  then have l2: "length h < length h2"
    by (simp add: frame_def)
  have f3: "frame (length h) h2 h' \<and> v' = HRef (length h)"
    using S ar by (rule strict_array_frame) (use l2 in simp_all)
  have "frame (length h) h h'"
    using f1 f2 f3 by (blast intro: frame_trans)
  moreover have "length h < length h'"
    using l2 f3 by (simp add: frame_def)
  ultimately show ?case using f3 by simp
qed

lemma properties_frame:
  assumes "transformProperties_h fuel es (HRef t) h = Some h'" and "n \<le> t" and "n \<le> length h"
  shows "frame n h h'"
proof -
  have S: "\<forall>v h v' h'. applyStrictModeTransformations_h fuel v h = Some (v', h')
             \<longrightarrow> frame (length h) h h'"
    using strict_frame by blast
  show ?thesis
    using assms by (rule loop_frame [OF S])
qed

section \<open>Values of the store and JSON values\<close>

lemma repr_frame:
  assumes "repr h v j" and "frame (length h) h h'"
  shows "repr h' v j"
  using assms
proof (induction rule: repr.induct)
  case (arr a vs xs)
  have "list_all2 (repr h') vs xs"
    using arr.IH arr.prems by (auto elim!: list_all2_mono)
  moreover have "a < length h'" "h' ! a = Arr vs"
    using arr.hyps arr.prems by (auto simp add: frame_def)
  ultimately show ?case by (intro repr.arr)
next
  case (obj a fs kvs)
  have "list_all2 (\<lambda>f kv. fst f = fst kv \<and> repr h' (snd f) (snd kv)) fs kvs"
    using obj.IH obj.prems by (auto elim!: list_all2_mono)
  moreover have "a < length h'" "h' ! a = Obj fs"
    using obj.hyps obj.prems by (auto simp add: frame_def)
  ultimately show ?case by (intro repr.obj)
qed (auto intro: repr.intros)

inductive_cases repr_JObjE: "repr h v (JObj kvs)"
inductive_cases repr_JArrE: "repr h v (JArr xs)"
inductive_cases repr_HRefE: "repr h (HRef a) j"
inductive_cases repr_JUndefinedE: "repr h v JUndefined"
inductive_cases repr_JNullE: "repr h v JNull"
inductive_cases repr_JBoolE: "repr h v (JBool b)"
inductive_cases repr_JNumE: "repr h v (JNum n)"
inductive_cases repr_JStrE: "repr h v (JStr s)"

lemma repr_is_object: "repr h v j \<Longrightarrow> h_is_object v = is_object j"
  by (induction rule: repr.induct) (simp_all add: h_is_object_def is_object_def)

lemma repr_truthy: "repr h v j \<Longrightarrow> h_truthy v = truthy j"
  by (induction rule: repr.induct) (simp_all add: h_truthy_def truthy_def)

lemma repr_nullish: "repr h v j \<Longrightarrow> h_nullish v = nullish j"
  by (induction rule: repr.induct) (simp_all add: h_nullish_def nullish_def)

lemma repr_eq_str: "repr h v j \<Longrightarrow> (v = HStr s) = (j = JStr s)"
  by (induction rule: repr.induct) simp_all

lemma repr_eq_undefined: "repr h v j \<Longrightarrow> (v = HUndefined) = (j = JUndefined)"
  by (induction rule: repr.induct) simp_all

text \<open>Fields of the store that stand for the fields of a JSON object.\<close>

lemma fields_indexed:
  assumes "list_all2 R vs xs"
  shows "list_all2 (\<lambda>f kv. fst f = fst kv \<and> R (snd f) (snd kv)) (indexed vs) (indexed xs)"
proof -
  have l: "length vs = length xs"
    using assms by (rule list_all2_lengthD)
  show ?thesis
    unfolding indexed_def list_all2_conv_all_nth
    using assms l by (auto simp add: list_all2_conv_all_nth)
qed

lemma repr_entries:
  assumes "repr h v j"
  shows "list_all2 (\<lambda>f kv. fst f = fst kv \<and> repr h (snd f) (snd kv)) (h_entries h v) (entries j)"
  using assms
proof (cases rule: repr.cases)
  case (arr a vs xs)
  then show ?thesis
    by (simp add: h_entries_def entries_def fields_indexed)
next
  case (obj a fs kvs)
  then show ?thesis
    by (simp add: h_entries_def entries_def)
next
  case (str s)
  have "list_all2 (repr h) (map (\<lambda>c. HStr [c]) s) (map (\<lambda>c. JStr [c]) s)"
    by (simp add: list_all2_conv_all_nth repr.str)
  then show ?thesis
    using str by (simp add: h_entries_def entries_def fields_indexed)
qed (simp_all add: h_entries_def entries_def)

lemma fields_lookup:
  assumes "list_all2 (\<lambda>f kv. fst f = fst kv \<and> repr h (snd f) (snd kv)) fs kvs"
  shows "repr h (h_lookup fs k) (lookup kvs k)"
  using assms
  by (induction rule: list_all2_induct)
     (auto simp add: h_lookup_def lookup_def repr.undefined)

lemma fields_assign:
  assumes "list_all2 (\<lambda>f kv. fst f = fst kv \<and> repr h (snd f) (snd kv)) fs kvs"
    and "repr h v j"
  shows "list_all2 (\<lambda>f kv. fst f = fst kv \<and> repr h (snd f) (snd kv))
           (h_assign fs k v) (assign kvs k j)"
  using assms by (induction rule: list_all2_induct) auto

lemma fields_filter:
  assumes "list_all2 (\<lambda>f kv. fst f = fst kv \<and> repr h (snd f) (snd kv)) fs kvs"
  shows "list_all2 (\<lambda>f kv. fst f = fst kv \<and> repr h (snd f) (snd kv))
           (filter (\<lambda>(k, _). p k) fs) (filter (\<lambda>(k, _). p k) kvs)"
  using assms by (induction rule: list_all2_induct) (auto simp add: case_prod_beta)

lemma fields_member:
  assumes "list_all2 (\<lambda>f kv. fst f = fst kv \<and> repr h (snd f) (snd kv)) fs kvs"
    and "(k, v) \<in> set fs"
  shows "\<exists>j. (k, j) \<in> set kvs \<and> repr h v j"
  using assms by (induction rule: list_all2_induct) auto

lemma repr_prop: "repr h v j \<Longrightarrow> repr h (h_prop h v k) (lookup (entries j) k)"
  unfolding h_prop_def by (rule fields_lookup) (rule repr_entries)

section \<open>Reading after writing\<close>

lemma h_lookup_assign: "h_lookup (h_assign fs k v) k' = (if k' = k then v else h_lookup fs k')"
  by (induction fs) (auto simp add: h_lookup_def)

lemma h_prop_at: "r < length h \<Longrightarrow> h ! r = Obj fs \<Longrightarrow> h_prop h (HRef r) k = h_lookup fs k"
  by (simp add: h_prop_def h_entries_def)

lemma set_at:
  "r < length h \<Longrightarrow> h ! r = Obj fs \<Longrightarrow> h_set (HRef r) k v h ! r = Obj (h_assign fs k v)"
  by (simp add: h_set_def)

lemma append_at: "r < length h \<Longrightarrow> (h @ [ob]) ! r = h ! r"
  by (simp add: nth_append)

lemma frame_at: "frame n h h' \<Longrightarrow> r < n \<Longrightarrow> h' ! r = h ! r"
  by (simp add: frame_def)

lemma h_entries_frame:
  assumes "repr h v j" and "frame (length h) h h'"
  shows "h_entries h' v = h_entries h v"
  using assms by (cases rule: repr.cases) (auto simp add: h_entries_def frame_def)

lemma size_entries_member:
  assumes "(k, v) \<in> set (entries x)" and "is_object v"
  shows "size v < size x"
proof (cases x)
  case (JObj kvs)
  have "(k, v) \<in> set kvs" using assms(1) by (simp add: JObj entries_def)
  then have "size_prod (\<lambda>_. 0) size (k, v) \<le> size_list (size_prod (\<lambda>_. 0) size) kvs"
    by (rule size_list_estimation') simp
  then show ?thesis by (simp add: JObj)
next
  case (JArr xs)
  have "v \<in> set xs"
    using assms(1) by (auto simp add: JArr entries_def indexed_def dest: set_zip_rightD)
  then have "size v \<le> size_list size xs"
    by (rule size_list_estimation') simp
  then show ?thesis by (simp add: JArr)
next
  case (JStr s)
  then show ?thesis
    using assms by (auto simp add: entries_def indexed_def is_object_def dest!: set_zip_rightD)
qed (use assms in \<open>simp_all add: entries_def\<close>)

lemma size_lookup_entries:
  assumes "is_object (lookup (entries x) k)"
  shows "size (lookup (entries x) k) < size x"
proof -
  obtain v where "map_of (entries x) k = Some v"
    using assms by (auto simp add: lookup_def is_object_def split: option.splits)
  then have "(k, v) \<in> set (entries x)" "lookup (entries x) k = v"
    by (auto simp add: lookup_def dest: map_of_SomeD)
  then show ?thesis using assms size_entries_member by metis
qed

section \<open>The strict transformation returns\<close>

lemma loop_returns:
  assumes R: "\<forall>v h j. repr h v j \<and> size j < fuel
                \<longrightarrow> (\<exists>v' h'. applyStrictModeTransformations_h fuel v h = Some (v', h'))"
    and es: "\<forall>(k, x) \<in> set es. h_is_object x \<longrightarrow> (\<exists>j. repr h0 x j \<and> size j < fuel)"
    and h: "frame (length h0) h0 h"
    and t: "length h0 \<le> t"
  shows "\<exists>h'. transformProperties_h fuel es (HRef t) h = Some h'"
  using es h
proof (induction es arbitrary: h)
  case Nil
  show ?case by simp
next
  case (Cons e es)
  obtain key val where e: "e = (key, val)" by (cases e)
  have rest: "\<forall>(k, x) \<in> set es. h_is_object x \<longrightarrow> (\<exists>j. repr h0 x j \<and> size j < fuel)"
    using Cons.prems(1) by simp
  show ?case
  proof (cases "h_is_object val")
    case True
    then obtain j where j: "repr h0 val j" "size j < fuel"
      using Cons.prems(1) by (auto simp add: e)
    have "repr h val j"
      using j(1) Cons.prems(2) by (rule repr_frame)
    then obtain val' h1 where a: "applyStrictModeTransformations_h fuel val h = Some (val', h1)"
      using R j(2) by blast
    have "frame (length h) h h1"
      using strict_frame [OF a] by blast
    then have "frame (length h0) h0 h1"
      using Cons.prems(2) by (auto simp add: frame_def)
    then have "frame (length h0) h0 (h_set (HRef t) key val' h1)"
      using t by (rule frame_step_set)
    then show ?thesis
      using Cons.IH [OF rest] a True by (simp add: e)
  next
    case False
    have "frame (length h0) h0 (h_set (HRef t) key val h)"
      using Cons.prems(2) t by (rule frame_step_set)
    then show ?thesis
      using Cons.IH [OF rest] False by (simp add: e)
  qed
qed

lemma strict_object_returns:
  assumes v: "repr h v j" and fuel: "size j < Suc fuel"
    and R: "\<forall>v h j. repr h v j \<and> size j < fuel
                \<longrightarrow> (\<exists>v' h'. applyStrictModeTransformations_h fuel v h = Some (v', h'))"
  shows "\<exists>h2. strict_object_h (transformProperties_h fuel) (HRef (length h))
                  (h @ [Obj (h_entries h v)]) = Some h2
              \<and> h_prop h2 (HRef (length h)) ''type'' = h_lookup (h_entries h v) ''type''
              \<and> (h_lookup (h_entries h v) ''type'' \<noteq> HStr ''object''
                 \<longrightarrow> h2 = h @ [Obj (h_entries h v)])"
proof -
  let ?E = "h_entries h v"
  let ?r = "length h"
  let ?loop = "transformProperties_h fuel"
  define h1 where "h1 = h @ [Obj ?E]"
  have r1: "?r < length h1" "h1 ! ?r = Obj ?E"
    by (simp_all add: h1_def)
  have type1: "h_prop h1 (HRef ?r) ''type'' = h_lookup ?E ''type''"
    using r1 by (rule h_prop_at)
  show ?thesis
  proof (cases "h_lookup ?E ''type'' = HStr ''object''")
    case False
    then show ?thesis
      using type1 by (simp add: strict_object_h_def h1_def [symmetric])
  next
    case object: True
    define h1' where "h1' = h_set (HRef ?r) ''additionalProperties'' (HBool False) h1"
    let ?E1 = "h_assign ?E ''additionalProperties'' (HBool False)"
    have r1': "?r < length h1'" "h1' ! ?r = Obj ?E1"
      using r1 by (simp_all add: h1'_def length_set set_at)
    define p where "p = h_lookup ?E ''properties''"
    have p1': "h_prop h1' (HRef ?r) ''properties'' = p"
      using r1' by (simp add: h_prop_at h_lookup_assign p_def)
    have type1': "h_prop h1' (HRef ?r) ''type'' = HStr ''object''"
      using r1' object by (simp add: h_prop_at h_lookup_assign)
    show ?thesis
    proof (cases "h_truthy p \<and> h_is_object p")
      case False
      then have "strict_object_h ?loop (HRef ?r) h1 = Some h1'"
        using type1 object p1' by (auto simp add: strict_object_h_def h1'_def [symmetric])
      then show ?thesis
        using type1' object by (auto simp add: h1_def)
    next
      case True
      define h2 where
        "h2 = h1' @ [Arr (map HStr (map fst (h_entries h1' (h_prop h1' (HRef ?r) ''properties''))))]"
      define h3 where "h3 = h_set (HRef ?r) ''required'' (HRef (length h1')) h2"
      define h4 where "h4 = h3 @ [Obj []]"
      let ?E2 = "h_assign ?E1 ''required'' (HRef (length h1'))"
      have r2: "?r < length h2" "h2 ! ?r = Obj ?E1"
        using r1' by (simp_all add: h2_def nth_append)
      have r3: "?r < length h3" "h3 ! ?r = Obj ?E2"
        using r2 by (simp_all add: h3_def length_set set_at)
      have r4: "?r < length h4" "h4 ! ?r = Obj ?E2"
        using r3 by (simp_all add: h4_def nth_append)
      have p4: "h_prop h4 (HRef ?r) ''properties'' = p"
        using r4 by (simp add: h_prop_at h_lookup_assign p_def)
      have l: "length h1 = Suc ?r" "length h1' = Suc ?r" "length h3 = Suc (Suc ?r)"
        "length h4 = Suc (Suc (Suc ?r))"
        by (simp_all add: h1_def h1'_def h2_def h3_def h4_def length_set)
      have eq: "strict_object_h ?loop (HRef ?r) h1 =
            (case ?loop (h_entries h4 (h_prop h4 (HRef ?r) ''properties'')) (HRef (length h3)) h4 of
               None \<Rightarrow> None
             | Some h5 \<Rightarrow> Some (h_set (HRef ?r) ''properties'' (HRef (length h3)) h5))"
        using type1 [unfolded object] True [folded p1']
        unfolding strict_object_h_def h4_def h3_def h2_def h1'_def alloc_def Let_def
        by (simp only: prod.case if_True simp_thms)
      have f4: "frame ?r h h4"
        unfolding h4_def h3_def h2_def h1'_def h1_def
        by (intro frame_step_append frame_step_set frame_append order_refl frame_refl)
      have pj: "repr h p (lookup (entries j) ''properties'')"
        unfolding p_def by (rule fields_lookup) (rule repr_entries [OF v])
      then have oj: "is_object (lookup (entries j) ''properties'')"
        using True by (simp add: repr_is_object)
      then have sj: "size (lookup (entries j) ''properties'') < size j"
        by (rule size_lookup_entries)
      have e4: "h_entries h4 p = h_entries h p"
        using pj f4 by (rule h_entries_frame)
      have fs: "list_all2 (\<lambda>f kv. fst f = fst kv \<and> repr h (snd f) (snd kv)) (h_entries h p)
                  (entries (lookup (entries j) ''properties''))"
        using pj by (rule repr_entries)
      have es: "\<forall>(k, x) \<in> set (h_entries h4 p). h_is_object x \<longrightarrow> (\<exists>j. repr h x j \<and> size j < fuel)"
      proof (clarify)
        fix k x
        assume m: "(k, x) \<in> set (h_entries h4 p)" and o: "h_is_object x"
        then obtain jx where jx: "(k, jx) \<in> set (entries (lookup (entries j) ''properties''))"
          "repr h x jx"
          using fields_member [OF fs] by (auto simp add: e4)
        have "is_object jx"
          using jx(2) o by (simp add: repr_is_object)
        then have "size jx < size (lookup (entries j) ''properties'')"
          using jx(1) by (intro size_entries_member)
        then show "\<exists>j. repr h x j \<and> size j < fuel"
          using jx(2) sj fuel by (intro exI [of _ jx]) simp
      qed
      obtain h5 where loop: "?loop (h_entries h4 p) (HRef (length h3)) h4 = Some h5"
        using loop_returns [where t = "length h3" and fuel = fuel, OF R es f4] l by auto
      have "frame (Suc ?r) h4 h5"
        using loop by (rule properties_frame) (simp_all add: l)
      then have r5: "?r < length h5" "h5 ! ?r = Obj ?E2"
        using r4 by (simp_all add: frame_def)
      define h6 where "h6 = h_set (HRef ?r) ''properties'' (HRef (length h3)) h5"
      have "?r < length h6" "h6 ! ?r = Obj (h_assign ?E2 ''properties'' (HRef (length h3)))"
        using r5 by (simp_all add: h6_def length_set set_at)
      then have "h_prop h6 (HRef ?r) ''type'' = h_lookup ?E ''type''"
        by (simp add: h_prop_at h_lookup_assign)
      moreover have "strict_object_h ?loop (HRef ?r) h1 = Some h6"
        by (simp add: eq p4 loop h6_def)
      ultimately show ?thesis
        using object by (auto simp add: h1_def)
    qed
  qed
qed

lemma strict_returns:
  "repr h v j \<Longrightarrow> size j < fuel
     \<Longrightarrow> \<exists>v' h'. applyStrictModeTransformations_h fuel v h = Some (v', h')"
proof (induction fuel arbitrary: v h j)
  case 0
  then show ?case by simp
next
  case (Suc fuel)
  let ?E = "h_entries h v"
  let ?r = "length h"
  let ?h1 = "h @ [Obj ?E]"
  have R: "\<forall>v h j. repr h v j \<and> size j < fuel
             \<longrightarrow> (\<exists>v' h'. applyStrictModeTransformations_h fuel v h = Some (v', h'))"
    using Suc.IH by blast
  obtain h2 where ob: "strict_object_h (transformProperties_h fuel) (HRef ?r) ?h1 = Some h2"
    and type2: "h_prop h2 (HRef ?r) ''type'' = h_lookup ?E ''type''"
    and same: "h_lookup ?E ''type'' \<noteq> HStr ''object'' \<longrightarrow> h2 = ?h1"
    using strict_object_returns [OF Suc.prems R] by blast
  have "\<exists>v' h'. strict_array_h (applyStrictModeTransformations_h fuel) (HRef ?r) h2 = Some (v', h')"
  proof (cases "h_prop h2 (HRef ?r) ''type'' = HStr ''array''
                  \<and> h_truthy (h_prop h2 (HRef ?r) ''items'')
                  \<and> h_is_object (h_prop h2 (HRef ?r) ''items'')")
    case False
    then show ?thesis
      by (auto simp add: strict_array_h_def)
  next
    case True
    then have h2: "h2 = ?h1"
      using type2 same by auto
    have items: "h_prop h2 (HRef ?r) ''items'' = h_lookup ?E ''items''"
      unfolding h2 by (rule h_prop_at) simp_all
    have ji: "repr h (h_lookup ?E ''items'') (lookup (entries j) ''items'')"
      by (rule fields_lookup) (rule repr_entries [OF Suc.prems(1)])
    then have "is_object (lookup (entries j) ''items'')"
      using True items by (simp add: repr_is_object)
    then have "size (lookup (entries j) ''items'') < fuel"
      using size_lookup_entries [of j "''items''"] Suc.prems(2) by simp
    moreover have "repr h2 (h_lookup ?E ''items'') (lookup (entries j) ''items'')"
      using ji unfolding h2 by (rule repr_frame) (simp add: frame_append)
    ultimately obtain i h3 where
      "applyStrictModeTransformations_h fuel (h_prop h2 (HRef ?r) ''items'') h2 = Some (i, h3)"
      using R items by metis
    then show ?thesis
      using True by (simp add: strict_array_h_def)
  qed
  then show ?case
    using ob by (simp add: alloc_def)
qed

section \<open>The methods over the store and over JSON values\<close>

lemma fields_frame:
  assumes "list_all2 (\<lambda>f kv. fst f = fst kv \<and> repr h (snd f) (snd kv)) fs kvs"
    and "frame (length h) h h'"
  shows "list_all2 (\<lambda>f kv. fst f = fst kv \<and> repr h' (snd f) (snd kv)) fs kvs"
  using assms by (auto elim!: list_all2_mono intro: repr_frame)

lemma values_frame:
  assumes "list_all2 (repr h) vs xs" and "frame (length h) h h'"
  shows "list_all2 (repr h') vs xs"
  using assms by (auto elim!: list_all2_mono intro: repr_frame)

lemma repr_alloc_obj:
  assumes "list_all2 (\<lambda>f kv. fst f = fst kv \<and> repr h (snd f) (snd kv)) fs kvs"
  shows "repr (h @ [Obj fs]) (HRef (length h)) (JObj kvs)"
proof (rule repr.obj)
  show "list_all2 (\<lambda>f kv. fst f = fst kv \<and> repr (h @ [Obj fs]) (snd f) (snd kv)) fs kvs"
    using assms by (rule fields_frame) (simp add: frame_append)
qed simp_all

lemma repr_alloc_arr:
  assumes "list_all2 (repr h) vs xs"
  shows "repr (h @ [Arr vs]) (HRef (length h)) (JArr xs)"
proof (rule repr.arr)
  show "list_all2 (repr (h @ [Arr vs])) vs xs"
    using assms by (rule values_frame) (simp add: frame_append)
qed simp_all

lemma build_repr:
  shows "build j h = (v, h') \<Longrightarrow> frame (length h) h h' \<and> repr h' v j"
    and "build_list xs h1 = (vs, h1') \<Longrightarrow> frame (length h1) h1 h1' \<and> list_all2 (repr h1') vs xs"
    and "build_fields kvs h2 = (fs, h2')
           \<Longrightarrow> frame (length h2) h2 h2'
             \<and> list_all2 (\<lambda>f kv. fst f = fst kv \<and> repr h2' (snd f) (snd kv)) fs kvs"
proof (induction j h and xs h1 and kvs h2 arbitrary: v h' and vs h1' and fs h2'
    rule: build_build_list_build_fields.induct)
  case (6 xs h)
  obtain ws h1 where b: "build_list xs h = (ws, h1)"
    by (cases "build_list xs h")
  then have r: "frame (length h) h h1" "list_all2 (repr h1) ws xs"
    using "6.IH" by blast+
  have v: "v = HRef (length h1)" "h' = h1 @ [Arr ws]"
    using "6.prems" b by (simp_all add: alloc_def)
  show ?case
    unfolding v using r by (auto intro: repr_alloc_arr frame_step_append)
next
  case (7 kvs h)
  obtain gs h1 where b: "build_fields kvs h = (gs, h1)"
    by (cases "build_fields kvs h")
  then have r: "frame (length h) h h1"
    "list_all2 (\<lambda>f kv. fst f = fst kv \<and> repr h1 (snd f) (snd kv)) gs kvs"
    using "7.IH" by blast+
  have v: "v = HRef (length h1)" "h' = h1 @ [Obj gs]"
    using "7.prems" b by (simp_all add: alloc_def)
  show ?case
    unfolding v using r by (auto intro: repr_alloc_obj frame_step_append)
next
  case (9 x xs h)
  obtain w h1 where b: "build x h = (w, h1)"
    by (cases "build x h")
  obtain ws h2 where c: "build_list xs h1 = (ws, h2)"
    by (cases "build_list xs h1")
  have r1: "frame (length h) h h1" "repr h1 w x"
    using "9.IH"(1) [OF b] by blast+
  have r2: "frame (length h1) h1 h2" "list_all2 (repr h2) ws xs"
    using "9.IH"(2) [OF b [symmetric] refl c] by blast+
  have v: "vs = w # ws" "h1' = h2"
    using "9.prems" b c by simp_all
  have "frame (length h) h h2"
    using r1(1) r2(1) by (auto simp add: frame_def)
  moreover have "repr h2 w x"
    using r1(2) r2(1) by (rule repr_frame)
  ultimately show ?case
    unfolding v using r2(2) by simp
next
  case (11 k x kvs h)
  obtain w h1 where b: "build x h = (w, h1)"
    by (cases "build x h")
  obtain gs h2 where c: "build_fields kvs h1 = (gs, h2)"
    by (cases "build_fields kvs h1")
  have r1: "frame (length h) h h1" "repr h1 w x"
    using "11.IH"(1) [OF b] by blast+
  have r2: "frame (length h1) h1 h2"
    "list_all2 (\<lambda>f kv. fst f = fst kv \<and> repr h2 (snd f) (snd kv)) gs kvs"
    using "11.IH"(2) [OF b [symmetric] refl c] by blast+
  have v: "fs = (k, w) # gs" "h2' = h2"
    using "11.prems" b c by simp_all
  have "frame (length h) h h2"
    using r1(1) r2(1) by (auto simp add: frame_def)
  moreover have "repr h2 w x"
    using r1(2) r2(1) by (rule repr_frame)
  ultimately show ?case
    unfolding v using r2(2) by simp
qed (auto simp add: frame_refl intro: repr.intros)

lemma getJsonSchema_h_repr:
  assumes "cache_ok tool st" and "getJsonSchema_h tool st = (v, this, h')"
  shows "frame (length (snd st)) (snd st) h' \<and> repr h' v (getJsonSchema tool)
       \<and> cachedJsonSchema this = Some v
       \<and> (cachedJsonSchema (fst st) \<noteq> None \<longrightarrow> this = fst st \<and> h' = snd st)"
proof (cases "cachedJsonSchema (fst st)")
  case None
  obtain w h1 where b: "build (toJsonSchema (schema tool) (name tool)) (snd st) = (w, h1)"
    by (cases "build (toJsonSchema (schema tool) (name tool)) (snd st)")
  then have "frame (length (snd st)) (snd st) h1 \<and> repr h1 w (toJsonSchema (schema tool) (name tool))"
    by (rule build_repr(1))
  then show ?thesis
    using assms(2) None b by (auto simp add: getJsonSchema_h_def getJsonSchema_def)
next
  case (Some c)
  then show ?thesis
    using assms by (cases st) (auto simp add: getJsonSchema_h_def cache_ok_def frame_refl)
qed

lemma repr_get:
  assumes "repr h v j"
  shows "rel_sum (=) (repr h) (h_get h v k) (get j k)"
  using assms
proof (cases rule: repr.cases)
  case (arr a vs xs)
  have "length vs = length xs"
    using arr(5) by (rule list_all2_lengthD)
  moreover have "repr h (h_lookup (indexed vs) k) (lookup (indexed xs) k)"
    by (rule fields_lookup) (rule fields_indexed [OF arr(5)])
  ultimately show ?thesis
    using arr by (simp add: h_get_def get_def repr.num)
next
  case (obj a fs kvs)
  have "repr h (h_lookup fs k) (lookup kvs k)"
    using obj(5) by (rule fields_lookup)
  then show ?thesis
    using obj by (simp add: h_get_def get_def entries_def)
next
  case (str s)
  have "repr h (h_prop h (HStr s) k) (lookup (entries (JStr s)) k)"
    by (rule repr_prop) (rule repr.str)
  then show ?thesis
    using str by (simp add: h_get_def get_def entries_def repr.num)
qed (simp_all add: h_get_def get_def entries_def lookup_def repr.undefined)

lemma h_or_empty_repr:
  assumes "repr h v j" and "h_or_empty v h = (v', h')"
  shows "frame (length h) h h' \<and> repr h' v' (coalesce j (JObj []))"
proof (cases "nullish j")
  case True
  then have "v' = HRef (length h)" "h' = h @ [Obj []]"
    using assms by (simp_all add: h_or_empty_def repr_nullish alloc_def)
  then show ?thesis
    using True repr_alloc_obj [of h "[]" "[]"] by (simp add: coalesce_def frame_append)
next
  case False
  then show ?thesis
    using assms by (simp add: h_or_empty_def repr_nullish coalesce_def frame_refl)
qed

lemma without_schema_h_repr:
  assumes "repr h v p" and "without_schema_h v h = (c, h')"
  shows "frame (length h) h h' \<and> repr h' c (JObj (without_schema p))"
proof -
  have "list_all2 (\<lambda>f kv. fst f = fst kv \<and> repr h (snd f) (snd kv))
          (filter (\<lambda>(k, _). k \<noteq> ''$schema'') (h_entries h v))
          (filter (\<lambda>(k, _). k \<noteq> ''$schema'') (entries p))"
    by (rule fields_filter) (rule repr_entries [OF assms(1)])
  then have "repr (h @ [Obj (filter (\<lambda>(k, _). k \<noteq> ''$schema'') (h_entries h v))])
               (HRef (length h)) (JObj (without_schema p))"
    unfolding without_schema_def by (rule repr_alloc_obj)
  then show ?thesis
    using assms(2) by (auto simp add: without_schema_h_def alloc_def frame_append)
qed

lemma unwrapped_h_repr:
  assumes "repr h js J"
  shows "case unwrapped n J of
           Inl e \<Rightarrow> unwrapped_h n js h = Inl e
         | Inr p \<Rightarrow> (\<exists>v h'. unwrapped_h n js h = Inr (v, h') \<and> frame (length h) h h'
                         \<and> repr h' v p)"
proof -
  have named: "case map_sum id (\<lambda>x. coalesce x (JObj [])) (get dj n) of
                 Inl e \<Rightarrow> map_sum id (\<lambda>x. h_or_empty x h) (h_get h dv n) = Inl e
               | Inr p \<Rightarrow> (\<exists>v h'. map_sum id (\<lambda>x. h_or_empty x h) (h_get h dv n) = Inr (v, h')
                               \<and> frame (length h) h h' \<and> repr h' v p)"
    if d: "repr h dv dj" for dv dj
  proof (cases "get dj n")
    case (Inl e)
    then show ?thesis
      using repr_get [OF d, of n] by (cases "h_get h dv n") simp_all
  next
    case (Inr x)
    then obtain w where w: "h_get h dv n = Inr w" "repr h w x"
      using repr_get [OF d, of n] by (cases "h_get h dv n") simp_all
    obtain v h' where o: "h_or_empty w h = (v, h')"
      by (cases "h_or_empty w h")
    show ?thesis
      using h_or_empty_repr [OF w(2) o] by (simp add: Inr w(1) o)
  qed
  show ?thesis
  proof (cases "get J ''definitions''")
    case (Inl e)
    then have "h_get h js ''definitions'' = Inl e"
      using repr_get [OF assms, of "''definitions''"]
      by (cases "h_get h js ''definitions''") simp_all
    then have uh: "unwrapped_h n js h = Inl e"
      by (simp add: unwrapped_h_def)
    have u: "unwrapped n J = Inl e"
      using Inl by (simp add: unwrapped_def)
    show ?thesis
      unfolding u uh by simp
  next
    case (Inr dj)
    then obtain dv where dv: "h_get h js ''definitions'' = Inr dv" "repr h dv dj"
      using repr_get [OF assms, of "''definitions''"]
      by (cases "h_get h js ''definitions''") simp_all
    have cond: "(h_truthy dv \<and> h_is_object dv) = (truthy dj \<and> is_object dj)"
      using dv(2) by (simp add: repr_truthy repr_is_object)
    show ?thesis
    proof (cases "truthy dj \<and> is_object dj")
      case True
      then have hTrue: "h_truthy dv \<and> h_is_object dv"
        using cond by blast
      have u: "unwrapped n J = map_sum id (\<lambda>x. coalesce x (JObj [])) (get dj n)"
        by (simp add: unwrapped_def Inr if_P [OF True])
      have uh: "unwrapped_h n js h = map_sum id (\<lambda>x. h_or_empty x h) (h_get h dv n)"
        by (simp add: unwrapped_h_def dv(1) if_P [OF hTrue])
      show ?thesis
        unfolding u uh by (rule named [OF dv(2)])
    next
      case False
      then have hFalse: "\<not> (h_truthy dv \<and> h_is_object dv)"
        using cond by blast
      show ?thesis
      proof (cases "get J ''$ref''")
        case (Inl e)
        then have "h_get h js ''$ref'' = Inl e"
          using repr_get [OF assms, of "''$ref''"]
          by (cases "h_get h js ''$ref''") simp_all
        then have uh: "unwrapped_h n js h = Inl e"
          by (simp add: unwrapped_h_def dv(1) if_not_P [OF hFalse])
        have u: "unwrapped n J = Inl e"
          using Inl by (simp add: unwrapped_def Inr if_not_P [OF False])
        show ?thesis
          unfolding u uh by simp
      next
        case ref: (Inr rj)
        then obtain rv where rv: "h_get h js ''$ref'' = Inr rv" "repr h rv rj"
          using repr_get [OF assms, of "''$ref''"]
          by (cases "h_get h js ''$ref''") simp_all
        have t: "h_truthy rv = truthy rj"
          using rv(2) by (rule repr_truthy)
        show ?thesis
        proof (cases "truthy rj")
          case True
          have u: "unwrapped n J = map_sum id (\<lambda>x. coalesce x (JObj [])) (get dj n)"
            using True by (simp add: unwrapped_def Inr ref if_not_P [OF False])
          have uh: "unwrapped_h n js h = map_sum id (\<lambda>x. h_or_empty x h) (h_get h dv n)"
            using True t by (simp add: unwrapped_h_def dv(1) rv(1) if_not_P [OF hFalse])
          show ?thesis
            unfolding u uh by (rule named [OF dv(2)])
        next
          case no_ref: False
          have u: "unwrapped n J = Inr (JObj (entries J))"
            using no_ref by (simp add: unwrapped_def Inr ref if_not_P [OF False])
          have uh: "unwrapped_h n js h = Inr (HRef (length h), h @ [Obj (h_entries h js)])"
            using no_ref t by (simp add: unwrapped_h_def dv(1) rv(1) alloc_def if_not_P [OF hFalse])
          have "repr (h @ [Obj (h_entries h js)]) (HRef (length h)) (JObj (entries J))"
            by (rule repr_alloc_obj) (rule repr_entries [OF assms])
          then show ?thesis
            unfolding u uh by (simp add: frame_append)
        qed
      qed
    qed
  qed
qed

section \<open>The specifications over the store and the specifications over JSON values\<close>

lemma frame_chain:
  assumes "frame (length h) h h'" and "frame (length h') h' h''"
  shows "frame (length h) h h''"
proof -
  have "length h \<le> length h'"
    using assms(1) by (rule frame_length)
  with assms(2) have "frame (length h) h' h''"
    by (rule frame_weaken)
  with assms(1) show ?thesis
    by (rule frame_trans)
qed

lemma repr_length_positive:
  assumes "repr h v j"
  shows "h_length_positive h v = length_positive j"
  using assms
proof (cases rule: repr.cases)
  case (arr a vs xs)
  have "length vs = length xs"
    using arr(5) by (rule list_all2_lengthD)
  then have "(vs = []) = (xs = [])"
    by auto
  then show ?thesis
    using arr by (simp add: h_length_positive_def length_positive_def)
next
  case (obj a fs kvs)
  have "repr h (h_lookup fs ''length'') (lookup kvs ''length'')"
    using obj(5) by (rule fields_lookup)
  then have "(case h_lookup fs ''length'' of
                HUndefined \<Rightarrow> Inr False
              | HNull \<Rightarrow> Inr False
              | HBool b \<Rightarrow> Inr b
              | HNum n \<Rightarrow> Inr (n > 0)
              | _ \<Rightarrow> Inl Unmodelled)
           = (case lookup kvs ''length'' of
                JUndefined \<Rightarrow> Inr False
              | JNull \<Rightarrow> Inr False
              | JBool b \<Rightarrow> Inr b
              | JNum n \<Rightarrow> Inr (n > 0)
              | _ \<Rightarrow> Inl Unmodelled)"
    by (cases rule: repr.cases) simp_all
  then show ?thesis
    using obj by (simp add: h_length_positive_def length_positive_def)
qed (simp_all add: h_length_positive_def length_positive_def)

text \<open>
  The non-strict OpenAI specification over the store returns, stands for the specification
  over JSON values, leaves every object that there was as it is, and leaves the cache, set
  if it was not, referring to the JSON schema of the tool.
\<close>

lemma getOpenAISpec_h_plain:
  assumes "cache_ok tool st"
  shows "\<exists>r st'. getOpenAISpec_h fuel tool False st = Some (r, st')
           \<and> rel_sum (=) (openai_repr (snd st')) r (getOpenAISpec tool False)
           \<and> frame (length (snd st)) (snd st) (snd st')
           \<and> (\<exists>v. cachedJsonSchema (fst st') = Some v \<and> repr (snd st') v (getJsonSchema tool))
           \<and> (cachedJsonSchema (fst st) \<noteq> None \<longrightarrow> fst st' = fst st)"
proof -
  obtain js this h1 where g: "getJsonSchema_h tool st = (js, this, h1)"
    by (cases "getJsonSchema_h tool st")
  have G: "frame (length (snd st)) (snd st) h1" "repr h1 js (getJsonSchema tool)"
    "cachedJsonSchema this = Some js" "cachedJsonSchema (fst st) \<noteq> None \<longrightarrow> this = fst st"
    using getJsonSchema_h_repr [OF assms g] by simp_all
  have U: "case unwrapped (name tool) (getJsonSchema tool) of
             Inl e \<Rightarrow> unwrapped_h (name tool) js h1 = Inl e
           | Inr p \<Rightarrow> (\<exists>v h'. unwrapped_h (name tool) js h1 = Inr (v, h')
                           \<and> frame (length h1) h1 h' \<and> repr h' v p)"
    using G(2) by (rule unwrapped_h_repr)
  show ?thesis
  proof (cases "unwrapped (name tool) (getJsonSchema tool)")
    case (Inl e)
    then have uh: "unwrapped_h (name tool) js h1 = Inl e"
      using U by simp
    have "getOpenAISpec_h fuel tool False st = Some (Inl e, this, h1)"
      by (simp add: getOpenAISpec_h_def g uh)
    moreover have "getOpenAISpec tool False = Inl e"
      by (simp add: getOpenAISpec_def Inl)
    ultimately show ?thesis
      using G by simp
  next
    case (Inr p)
    then obtain pv h2 where uh: "unwrapped_h (name tool) js h1 = Inr (pv, h2)"
      and f2: "frame (length h1) h1 h2" and r2: "repr h2 pv p"
      using U by auto
    obtain c h3 where w: "without_schema_h pv h2 = (c, h3)"
      by (cases "without_schema_h pv h2")
    have W: "frame (length h2) h2 h3" "repr h3 c (JObj (without_schema p))"
      using without_schema_h_repr [OF r2 w] by simp_all
    have f13: "frame (length h1) h1 h3"
      using f2 W(1) by (rule frame_chain)
    have "getOpenAISpec_h fuel tool False st =
            Some (Inr \<lparr>spec_type_h = ''function'',
                       function_h = \<lparr>fn_name_h = name tool, fn_description_h = description tool,
                                     parameters_h = c, strict_h = None\<rparr>\<rparr>, this, h3)"
      by (simp add: getOpenAISpec_h_def g uh w)
    moreover have "getOpenAISpec tool False =
            Inr \<lparr>spec_type = ''function'',
                 function' = \<lparr>fn_name = name tool, fn_description = description tool,
                               parameters = JObj (without_schema p), strict = None\<rparr>\<rparr>"
      by (simp add: getOpenAISpec_def Inr)
    moreover have "frame (length (snd st)) (snd st) h3"
      using G(1) f13 by (rule frame_chain)
    moreover have "repr h3 js (getJsonSchema tool)"
      using G(2) f13 by (rule repr_frame)
    ultimately show ?thesis
      using G(3,4) W(2) by (simp add: openai_repr_def)
  qed
qed

lemma getAnthropicSpec_h_repr:
  assumes "cache_ok tool st"
  shows "\<exists>r st'. getAnthropicSpec_h tool st = (r, st')
           \<and> rel_sum (=) (anthropic_repr (snd st')) r (getAnthropicSpec tool)
           \<and> frame (length (snd st)) (snd st) (snd st')
           \<and> (\<exists>v. cachedJsonSchema (fst st') = Some v \<and> repr (snd st') v (getJsonSchema tool))
           \<and> (cachedJsonSchema (fst st) \<noteq> None \<longrightarrow> fst st' = fst st)"
proof -
  obtain js this h1 where g: "getJsonSchema_h tool st = (js, this, h1)"
    by (cases "getJsonSchema_h tool st")
  have G: "frame (length (snd st)) (snd st) h1" "repr h1 js (getJsonSchema tool)"
    "cachedJsonSchema this = Some js" "cachedJsonSchema (fst st) \<noteq> None \<longrightarrow> this = fst st"
    using getJsonSchema_h_repr [OF assms g] by simp_all
  have U: "case unwrapped (name tool) (getJsonSchema tool) of
             Inl e \<Rightarrow> unwrapped_h (name tool) js h1 = Inl e
           | Inr p \<Rightarrow> (\<exists>v h'. unwrapped_h (name tool) js h1 = Inr (v, h')
                           \<and> frame (length h1) h1 h' \<and> repr h' v p)"
    using G(2) by (rule unwrapped_h_repr)
  show ?thesis
  proof (cases "unwrapped (name tool) (getJsonSchema tool)")
    case (Inl e)
    then have uh: "unwrapped_h (name tool) js h1 = Inl e"
      using U by simp
    have "getAnthropicSpec_h tool st = (Inl e, this, h1)"
      by (simp add: getAnthropicSpec_h_def g uh)
    moreover have "getAnthropicSpec tool = Inl e"
      by (simp add: getAnthropicSpec_def Inl)
    ultimately show ?thesis
      using G by simp
  next
    case (Inr p)
    then obtain pv h2 where uh: "unwrapped_h (name tool) js h1 = Inr (pv, h2)"
      and f2: "frame (length h1) h1 h2" and r2: "repr h2 pv p"
      using U by auto
    obtain c h3 where w: "without_schema_h pv h2 = (c, h3)"
      by (cases "without_schema_h pv h2")
    have W: "frame (length h2) h2 h3" "repr h3 c (JObj (without_schema p))"
      using without_schema_h_repr [OF r2 w] by simp_all
    define rq where "rq = h_prop h3 c ''required''"
    obtain pr h4 where o: "h_or_empty (h_prop h3 c ''properties'') h3 = (pr, h4)"
      by (cases "h_or_empty (h_prop h3 c ''properties'') h3")
    have field: "repr h3 (h_prop h3 c k) (lookup (without_schema p) k)" for k
      using repr_prop [OF W(2), of k] by (simp add: entries_def)
    have O: "frame (length h3) h3 h4"
      "repr h4 pr (coalesce (lookup (without_schema p) ''properties'') (JObj []))"
      using h_or_empty_repr [OF field o] by simp_all
    have R: "repr h4 rq (lookup (without_schema p) ''required'')"
      unfolding rq_def using field O(1) by (rule repr_frame)
    have f14: "frame (length h1) h1 h4"
      using f2 W(1) O(1) by (blast intro: frame_chain)
    have cache: "repr h4 js (getJsonSchema tool)"
      using G(2) f14 by (rule repr_frame)
    have whole: "frame (length (snd st)) (snd st) h4"
      using G(1) f14 by (rule frame_chain)
    have h: "getAnthropicSpec_h tool st =
            (if rq \<noteq> HUndefined
             then (case h_length_positive h4 rq of
                     Inl e \<Rightarrow> (Inl e, this, h4)
                   | Inr positive \<Rightarrow>
                       (Inr \<lparr>spec_name_h = name tool, spec_description_h = description tool,
                             input_schema_h =
                               (if positive
                                then \<lparr>schema_type_h = ''object'', properties_h = pr,
                                      required_h = Some rq\<rparr>
                                else \<lparr>schema_type_h = ''object'', properties_h = pr,
                                      required_h = None\<rparr>)\<rparr>, this, h4))
             else (Inr \<lparr>spec_name_h = name tool, spec_description_h = description tool,
                        input_schema_h = \<lparr>schema_type_h = ''object'', properties_h = pr,
                                           required_h = None\<rparr>\<rparr>, this, h4))"
      by (simp add: getAnthropicSpec_h_def g uh w o rq_def Let_def split: sum.splits)
    have undef: "(rq = HUndefined) = (lookup (without_schema p) ''required'' = JUndefined)"
      using R by (rule repr_eq_undefined)
    have len: "h_length_positive h4 rq = length_positive (lookup (without_schema p) ''required'')"
      using R by (rule repr_length_positive)
    show ?thesis
    proof (cases "lookup (without_schema p) ''required'' = JUndefined")
      case True
      then have "getAnthropicSpec tool =
          Inr \<lparr>spec_name = name tool, spec_description = description tool,
               input_schema = \<lparr>schema_type = ''object'',
                 properties = coalesce (lookup (without_schema p) ''properties'') (JObj []),
                 required = None\<rparr>\<rparr>"
        by (simp add: getAnthropicSpec_def Inr Let_def)
      then show ?thesis
        using True undef h G(3,4) O(2) cache whole by (simp add: anthropic_repr_def)
    next
      case False
      show ?thesis
      proof (cases "length_positive (lookup (without_schema p) ''required'')")
        case (Inl e)
        then have "getAnthropicSpec tool = Inl e"
          using False by (simp add: getAnthropicSpec_def Inr Let_def)
        then show ?thesis
          using False undef len Inl h G(3,4) cache whole by simp
      next
        case positive: (Inr b)
        then have "getAnthropicSpec tool =
            Inr \<lparr>spec_name = name tool, spec_description = description tool,
                 input_schema = \<lparr>schema_type = ''object'',
                   properties = coalesce (lookup (without_schema p) ''properties'') (JObj []),
                   required = (if b then Some (lookup (without_schema p) ''required'')
                               else None)\<rparr>\<rparr>"
          using False by (simp add: getAnthropicSpec_def Inr Let_def)
        then show ?thesis
          using False undef len positive h G(3,4) O(2) R cache whole
          by (simp add: anthropic_repr_def)
      qed
    qed
  qed
qed

text \<open>
  The strict OpenAI specification over the store returns when the fuel exceeds the size of
  the parameters, leaves every object that there was as it is, and leaves the cache, set
  if it was not, referring to the JSON schema of the tool.
\<close>

lemma getOpenAISpec_h_strict:
  assumes "cache_ok tool st"
    and "\<forall>p. unwrapped (name tool) (getJsonSchema tool) = Inr p
           \<longrightarrow> size (JObj (without_schema p)) < fuel"
  shows "\<exists>r st'. getOpenAISpec_h fuel tool True st = Some (r, st')
           \<and> frame (length (snd st)) (snd st) (snd st')
           \<and> (\<exists>v. cachedJsonSchema (fst st') = Some v \<and> repr (snd st') v (getJsonSchema tool))
           \<and> (cachedJsonSchema (fst st) \<noteq> None \<longrightarrow> fst st' = fst st)"
proof -
  obtain js this h1 where g: "getJsonSchema_h tool st = (js, this, h1)"
    by (cases "getJsonSchema_h tool st")
  have G: "frame (length (snd st)) (snd st) h1" "repr h1 js (getJsonSchema tool)"
    "cachedJsonSchema this = Some js" "cachedJsonSchema (fst st) \<noteq> None \<longrightarrow> this = fst st"
    using getJsonSchema_h_repr [OF assms(1) g] by simp_all
  have U: "case unwrapped (name tool) (getJsonSchema tool) of
             Inl e \<Rightarrow> unwrapped_h (name tool) js h1 = Inl e
           | Inr p \<Rightarrow> (\<exists>v h'. unwrapped_h (name tool) js h1 = Inr (v, h')
                           \<and> frame (length h1) h1 h' \<and> repr h' v p)"
    using G(2) by (rule unwrapped_h_repr)
  show ?thesis
  proof (cases "unwrapped (name tool) (getJsonSchema tool)")
    case (Inl e)
    then have uh: "unwrapped_h (name tool) js h1 = Inl e"
      using U by simp
    have "getOpenAISpec_h fuel tool True st = Some (Inl e, this, h1)"
      by (simp add: getOpenAISpec_h_def g uh)
    then show ?thesis
      using G by simp
  next
    case (Inr p)
    then obtain pv h2 where uh: "unwrapped_h (name tool) js h1 = Inr (pv, h2)"
      and f2: "frame (length h1) h1 h2" and r2: "repr h2 pv p"
      using U by auto
    obtain c h3 where w: "without_schema_h pv h2 = (c, h3)"
      by (cases "without_schema_h pv h2")
    have W: "frame (length h2) h2 h3" "repr h3 c (JObj (without_schema p))"
      using without_schema_h_repr [OF r2 w] by simp_all
    have "size (JObj (without_schema p)) < fuel"
      using assms(2) Inr by blast
    with W(2) obtain v' h4 where s: "applyStrictModeTransformations_h fuel c h3 = Some (v', h4)"
      using strict_returns by blast
    then have f4: "frame (length h3) h3 h4"
      using strict_frame by blast
    have f14: "frame (length h1) h1 h4"
      using f2 W(1) f4 by (blast intro: frame_chain)
    have "getOpenAISpec_h fuel tool True st =
            Some (Inr \<lparr>spec_type_h = ''function'',
                       function_h = \<lparr>fn_name_h = name tool, fn_description_h = description tool,
                                     parameters_h = v', strict_h = Some True\<rparr>\<rparr>, this, h4)"
      by (simp add: getOpenAISpec_h_def g uh w s)
    moreover have "frame (length (snd st)) (snd st) h4"
      using G(1) f14 by (rule frame_chain)
    moreover have "repr h4 js (getJsonSchema tool)"
      using G(2) f14 by (rule repr_frame)
    ultimately show ?thesis
      using G(3,4) by simp
  qed
qed

text \<open>A value of the store stands for one JSON value only.\<close>

lemma repr_unique:
  assumes "repr h v j" and "repr h v j'"
  shows "j = j'"
  using assms
proof (induction arbitrary: j' rule: repr.induct)
  case (arr a vs xs)
  from arr.prems obtain xs' where j': "j' = JArr xs'" and l: "list_all2 (repr h) vs xs'"
    using arr.hyps by (cases rule: repr.cases) simp_all
  have "xs = xs'"
    using arr.IH l
  proof (induction vs xs arbitrary: xs' rule: list_all2_induct)
    case Nil
    then show ?case by simp
  next
    case (Cons v vs x xs)
    then show ?case by (cases xs') auto
  qed
  then show ?case
    using j' by simp
next
  case (obj a fs kvs)
  from obj.prems obtain kvs' where j': "j' = JObj kvs'"
    and l: "list_all2 (\<lambda>f kv. fst f = fst kv \<and> repr h (snd f) (snd kv)) fs kvs'"
    using obj.hyps by (cases rule: repr.cases) simp_all
  have "kvs = kvs'"
    using obj.IH l
  proof (induction fs kvs arbitrary: kvs' rule: list_all2_induct)
    case Nil
    then show ?case by simp
  next
    case (Cons f fs kv kvs)
    then show ?case by (cases kvs') (auto simp add: prod_eq_iff)
  qed
  then show ?case
    using j' by simp
qed (auto elim: repr.cases)

lemma cache_ok_new: "cache_ok tool new_tool"
  by (simp add: cache_ok_def new_tool_def)

lemma cache_ok_cached: "cache_ok tool (cached_tool tool)"
proof -
  obtain v this h where g: "getJsonSchema_h tool new_tool = (v, this, h)"
    by (cases "getJsonSchema_h tool new_tool")
  have "repr h v (getJsonSchema tool)" "cachedJsonSchema this = Some v"
    using getJsonSchema_h_repr [OF cache_ok_new g] by simp_all
  then show ?thesis
    by (simp add: cache_ok_def cached_tool_def g)
qed

text \<open>
  The strict specification of the tool \<open>nested\<close>, its schema cached in the objects 0 to 7:
  the call allocates the objects 8 to 16 and writes to these only; the property schema
  \<open>a\<close> of the result is the copy 12 of the cached object 0.
\<close>

lemma getOpenAISpec_h_nested:
  "cached_tool (spec_tool ''nested'' nested_schema) =
     (\<lparr>cachedJsonSchema = Some (HRef 7)\<rparr>,
      [Obj [(''type'', HStr ''string'')], Obj [(''type'', HStr ''number'')],
       Obj [(''c'', HRef 1)],
       Obj [(''type'', HStr ''object''), (''properties'', HRef 2)],
       Obj [(''a'', HRef 0), (''b'', HRef 3)],
       Obj [(''type'', HStr ''object''), (''properties'', HRef 4)],
       Obj [(''nested'', HRef 5)],
       Obj [(''$ref'', HStr ''#/definitions/nested''), (''definitions'', HRef 6),
            (''$schema'', HStr ''http://json-schema.org/draft-07/schema#'')]])"
  "getOpenAISpec_h 3 (spec_tool ''nested'' nested_schema) True
       (cached_tool (spec_tool ''nested'' nested_schema)) =
     Some (Inr \<lparr>spec_type_h = ''function'',
                function_h = \<lparr>fn_name_h = ''nested'',
                              fn_description_h = ''Counts its invocations.'',
                              parameters_h = HRef 9, strict_h = Some True\<rparr>\<rparr>,
           \<lparr>cachedJsonSchema = Some (HRef 7)\<rparr>,
           [Obj [(''type'', HStr ''string'')], Obj [(''type'', HStr ''number'')],
            Obj [(''c'', HRef 1)],
            Obj [(''type'', HStr ''object''), (''properties'', HRef 2)],
            Obj [(''a'', HRef 0), (''b'', HRef 3)],
            Obj [(''type'', HStr ''object''), (''properties'', HRef 4)],
            Obj [(''nested'', HRef 5)],
            Obj [(''$ref'', HStr ''#/definitions/nested''), (''definitions'', HRef 6),
                 (''$schema'', HStr ''http://json-schema.org/draft-07/schema#'')],
            Obj [(''type'', HStr ''object''), (''properties'', HRef 4)],
            Obj [(''type'', HStr ''object''), (''properties'', HRef 11),
                 (''additionalProperties'', HBool False), (''required'', HRef 10)],
            Arr [HStr ''a'', HStr ''b''], Obj [(''a'', HRef 12), (''b'', HRef 13)],
            Obj [(''type'', HStr ''string'')],
            Obj [(''type'', HStr ''object''), (''properties'', HRef 15),
                 (''additionalProperties'', HBool False), (''required'', HRef 14)],
            Arr [HStr ''c''], Obj [(''c'', HRef 16)],
            Obj [(''type'', HStr ''number'')]])"
  by code_simp+

text \<open>
  C10. A tool object whose cache is empty or refers to the JSON schema of the tool, and a
  fuel above the size of the parameters. The strict OpenAI specification returns; every
  object that the store had before the call is the same after it, and a cache that was
  set refers to the same object; the cache refers, in the store after the call, to the
  JSON schema of the tool. The non-strict OpenAI specification and the Anthropic
  specification return after the strict call and without it, and stand in both cases for
  the same specifications, those of \<open>getOpenAISpec\<close> and \<open>getAnthropicSpec\<close> over JSON
  values.
\<close>

theorem strict_keeps_cached_schema:
  assumes "cache_ok tool st"
    and "\<forall>p. unwrapped (name tool) (getJsonSchema tool) = Inr p
           \<longrightarrow> size (JObj (without_schema p)) < fuel"
  shows "\<exists>r1 st1. getOpenAISpec_h fuel tool True st = Some (r1, st1)
           \<and> frame (length (snd st)) (snd st) (snd st1)
           \<and> (cachedJsonSchema (fst st) \<noteq> None \<longrightarrow> fst st1 = fst st)
           \<and> (\<exists>v. cachedJsonSchema (fst st1) = Some v \<and> repr (snd st1) v (getJsonSchema tool))
           \<and> (\<exists>r st' r' st''.
                 getOpenAISpec_h fuel' tool False st1 = Some (r, st')
                 \<and> getOpenAISpec_h fuel' tool False st = Some (r', st'')
                 \<and> rel_sum (=) (openai_repr (snd st')) r (getOpenAISpec tool False)
                 \<and> rel_sum (=) (openai_repr (snd st'')) r' (getOpenAISpec tool False))
           \<and> (\<exists>r st' r' st''.
                 getAnthropicSpec_h tool st1 = (r, st')
                 \<and> getAnthropicSpec_h tool st = (r', st'')
                 \<and> rel_sum (=) (anthropic_repr (snd st')) r (getAnthropicSpec tool)
                 \<and> rel_sum (=) (anthropic_repr (snd st'')) r' (getAnthropicSpec tool))"
proof -
  obtain r1 st1 where s: "getOpenAISpec_h fuel tool True st = Some (r1, st1)"
    and f: "frame (length (snd st)) (snd st) (snd st1)"
    and c: "\<exists>v. cachedJsonSchema (fst st1) = Some v \<and> repr (snd st1) v (getJsonSchema tool)"
    and k: "cachedJsonSchema (fst st) \<noteq> None \<longrightarrow> fst st1 = fst st"
    using getOpenAISpec_h_strict [OF assms] by blast
  have ok: "cache_ok tool st1"
    using c by (auto simp add: cache_ok_def)
  obtain r st' where a: "getOpenAISpec_h fuel' tool False st1 = Some (r, st')"
    "rel_sum (=) (openai_repr (snd st')) r (getOpenAISpec tool False)"
    using getOpenAISpec_h_plain [OF ok, of fuel'] by blast
  obtain r' st'' where b: "getOpenAISpec_h fuel' tool False st = Some (r', st'')"
    "rel_sum (=) (openai_repr (snd st'')) r' (getOpenAISpec tool False)"
    using getOpenAISpec_h_plain [OF assms(1), of fuel'] by blast
  obtain q qt where d: "getAnthropicSpec_h tool st1 = (q, qt)"
    "rel_sum (=) (anthropic_repr (snd qt)) q (getAnthropicSpec tool)"
    using getAnthropicSpec_h_repr [OF ok] by blast
  obtain q' qt' where e: "getAnthropicSpec_h tool st = (q', qt')"
    "rel_sum (=) (anthropic_repr (snd qt')) q' (getAnthropicSpec tool)"
    using getAnthropicSpec_h_repr [OF assms(1)] by blast
  show ?thesis
    using s f c k a b d e by blast
qed

theorem strict_keeps_cached_schema_witness:
  "cache_ok (spec_tool ''nested'' nested_schema) (cached_tool (spec_tool ''nested'' nested_schema))
   \<and> unwrapped (name (spec_tool ''nested'' nested_schema))
         (getJsonSchema (spec_tool ''nested'' nested_schema)) = Inr nested_schema
   \<and> size (JObj (without_schema nested_schema)) < 30
   \<and> (\<exists>r1 st1. getOpenAISpec_h 30 (spec_tool ''nested'' nested_schema) True
                  (cached_tool (spec_tool ''nested'' nested_schema)) = Some (r1, st1)
           \<and> frame (length (snd (cached_tool (spec_tool ''nested'' nested_schema))))
               (snd (cached_tool (spec_tool ''nested'' nested_schema))) (snd st1)
           \<and> fst st1 = fst (cached_tool (spec_tool ''nested'' nested_schema))
           \<and> (\<exists>v. cachedJsonSchema (fst st1) = Some v
                 \<and> repr (snd st1) v (getJsonSchema (spec_tool ''nested'' nested_schema)))
           \<and> (\<exists>r st' r' st''.
                 getOpenAISpec_h 0 (spec_tool ''nested'' nested_schema) False st1 = Some (r, st')
                 \<and> getOpenAISpec_h 0 (spec_tool ''nested'' nested_schema) False
                     (cached_tool (spec_tool ''nested'' nested_schema)) = Some (r', st'')
                 \<and> rel_sum (=) (openai_repr (snd st')) r
                     (getOpenAISpec (spec_tool ''nested'' nested_schema) False)
                 \<and> rel_sum (=) (openai_repr (snd st'')) r'
                     (getOpenAISpec (spec_tool ''nested'' nested_schema) False))
           \<and> (\<exists>r st' r' st''.
                 getAnthropicSpec_h (spec_tool ''nested'' nested_schema) st1 = (r, st')
                 \<and> getAnthropicSpec_h (spec_tool ''nested'' nested_schema)
                     (cached_tool (spec_tool ''nested'' nested_schema)) = (r', st'')
                 \<and> rel_sum (=) (anthropic_repr (snd st')) r
                     (getAnthropicSpec (spec_tool ''nested'' nested_schema))
                 \<and> rel_sum (=) (anthropic_repr (snd st'')) r'
                     (getAnthropicSpec (spec_tool ''nested'' nested_schema))))"
proof -
  let ?t = "spec_tool ''nested'' nested_schema"
  have c: "cache_ok ?t (cached_tool ?t)"
    by (rule cache_ok_cached)
  have u: "unwrapped (name ?t) (getJsonSchema ?t) = Inr nested_schema"
    by (simp add: spec_tool_def getJsonSchema_def schema_of_def probe_tool_def
          unwrapped_wrapped coalesce_def nullish_def nested_schema_def)
  have z: "size (JObj (without_schema nested_schema)) < 30"
    by (simp add: nested_schema_def without_schema_def entries_def)
  then have f: "\<forall>p. unwrapped (name ?t) (getJsonSchema ?t) = Inr p
                  \<longrightarrow> size (JObj (without_schema p)) < 30"
    by (simp add: u)
  have set: "cachedJsonSchema (fst (cached_tool ?t)) \<noteq> None"
    by (simp add: cached_tool_def getJsonSchema_h_def new_tool_def split: prod.splits)
  show ?thesis
    using strict_keeps_cached_schema [OF c f, of 0] c u z set by blast
qed

end
